theory Spec2Isabelle
  imports Main "HOL-Library.List_Lexorder"
begin

section \<open>Strings\<close>

text \<open>
  A JavaScript string is a sequence of UTF-16 code units. A code unit is modelled as a
  natural number, so \<open>''A''\<close> is \<open>[65]\<close> and the letter E with acute accent is \<open>[201]\<close>.
  The default \<open>Array.prototype.sort\<close> orders strings by their code units, which is the
  lexicographic order on lists of numbers.
\<close>

type_synonym jsstring = "nat list"

text \<open>The character class \<open>[A-Za-z]\<close> of the regular expression in \<open>normalizeLetter\<close>.\<close>

definition isAsciiLetter :: "nat \<Rightarrow> bool" where
  "isAsciiLetter c = ((65 \<le> c \<and> c \<le> 90) \<or> (97 \<le> c \<and> c \<le> 122))"

text \<open>
  The code units that \<open>String.prototype.trim\<close> removes: the WhiteSpace and LineTerminator
  productions of ECMAScript.
\<close>

definition isWhiteSpace :: "nat \<Rightarrow> bool" where
  "isWhiteSpace c =
     (c = 9 \<or> c = 10 \<or> c = 11 \<or> c = 12 \<or> c = 13 \<or> c = 32 \<or> c = 160 \<or> c = 5760 \<or>
      (8192 \<le> c \<and> c \<le> 8202) \<or> c = 8232 \<or> c = 8233 \<or> c = 8239 \<or> c = 8287 \<or>
      c = 12288 \<or> c = 65279)"

definition trim :: "jsstring \<Rightarrow> jsstring" where
  "trim s = rev (dropWhile isWhiteSpace (rev (dropWhile isWhiteSpace s)))"

text \<open>
  \<open>toUpperCase\<close> on one code unit. The source applies it to a match of \<open>[A-Za-z]\<close> only,
  where it maps a lower-case letter to its upper-case letter and leaves the others alone.
\<close>

definition toUpperCase :: "nat \<Rightarrow> nat" where
  "toUpperCase c = (if 97 \<le> c \<and> c \<le> 122 then c - 32 else c)"

section \<open>Letter classifier\<close>

text \<open>
  \<^verbatim>\<open>
  function normalizeLetter(name) {
    const s = (name ?? "").trim();
    const m = s.match(/[A-Za-z]/);
    return m ? m[0].toUpperCase() : null;
  }
  \<close>
  A name that is \<open>null\<close> or \<open>undefined\<close> is \<open>None\<close>; the result \<open>null\<close> is \<open>None\<close>.
\<close>

definition normalizeLetter :: "jsstring option \<Rightarrow> jsstring option" where
  "normalizeLetter name =
     (let s = trim (case name of None \<Rightarrow> [] | Some n \<Rightarrow> n) in
      case find isAsciiLetter s of
        None \<Rightarrow> None
      | Some m \<Rightarrow> Some [toUpperCase m])"

section \<open>Folders, actors and the world\<close>

text \<open>
  A folder document as the code reads it: \<open>id\<close>, \<open>name\<close>, \<open>type\<close> and \<open>folder\<close>, the parent
  folder document or \<open>null\<close>. The code follows \<open>folder\<close> from document to document, so the
  parent is a folder value; the host keeps the parent chain of a folder free of cycles.
\<close>

datatype folder =
  Folder (folder_id: jsstring) (folder_name: jsstring) (folder_type: jsstring)
    (folder_folder: "folder option")

text \<open>An actor document: \<open>id\<close>, \<open>name\<close> (possibly missing), \<open>type\<close> and \<open>folder\<close>.\<close>

record actor =
  actor_id :: jsstring
  actor_name :: "jsstring option"
  actor_type :: jsstring
  actor_folder :: "folder option"

text \<open>The host's collections \<open>game.folders\<close> and \<open>game.actors.contents\<close>, in their order.\<close>

record world =
  folders :: "folder list"
  actors :: "actor list"

text \<open>The string \<open>Actor\<close>, the folder type the module works on.\<close>

definition Actor_type :: jsstring where
  "Actor_type = [65, 99, 116, 111, 114]"

text \<open>\<open>x.folder?.id ?? null\<close>: the id of the containing folder, if there is one.\<close>

definition folder_parent_id :: "folder \<Rightarrow> jsstring option" where
  "folder_parent_id f = map_option folder_id (folder_folder f)"

definition actor_folder_id :: "actor \<Rightarrow> jsstring option" where
  "actor_folder_id a = map_option folder_id (actor_folder a)"

section \<open>Short ids and breadcrumbs\<close>

text \<open>\<open>String(id ?? "").slice(-4)\<close>: the last four code units of the id.\<close>

definition shortId :: "jsstring option \<Rightarrow> jsstring" where
  "shortId i = (let s = (case i of None \<Rightarrow> [] | Some x \<Rightarrow> x) in drop (length s - 4) s)"

text \<open>The loop of \<open>folderBreadcrumb\<close>: the names from the folder up to its root.\<close>

fun crumbParts :: "folder option \<Rightarrow> jsstring list" where
  "crumbParts None = []"
| "crumbParts (Some (Folder i n t p)) = n # crumbParts p"

fun join :: "jsstring \<Rightarrow> jsstring list \<Rightarrow> jsstring" where
  "join sep [] = []"
| "join sep [x] = x"
| "join sep (x # y # ys) = x @ sep @ join sep (y # ys)"

definition folderBreadcrumb :: "folder \<Rightarrow> jsstring" where
  "folderBreadcrumb f = join [32, 47, 32] (rev (crumbParts (Some f)))"

section \<open>Descendant index\<close>

text \<open>
  \<open>buildFolderChildrenMap\<close>: a \<open>Map\<close> from a parent id (or \<open>null\<close>) to the folders that have
  this parent, in the order of the folder list.
\<close>

type_synonym children = "jsstring option \<rightharpoonup> folder list"

definition addChild :: "children \<Rightarrow> folder \<Rightarrow> children" where
  "addChild children f =
     (let pid = folder_parent_id f in
      children(pid \<mapsto> (case children pid of None \<Rightarrow> [] | Some fs \<Rightarrow> fs) @ [f]))"

definition buildFolderChildrenMap :: "folder list \<Rightarrow> children" where
  "buildFolderChildrenMap actorFolders = foldl addChild Map.empty actorFolders"

text \<open>
  \<open>dfs\<close> of \<open>buildDescendantsMemo\<close>. The memo is a \<open>Map\<close> from a folder id to a \<open>Set\<close> of
  folder ids; the closure mutates it, so the model passes it along and returns it. The
  recursion follows the children map and ends only when that map has no cycle: the first
  argument bounds the depth of the calls, and \<open>None\<close> is a run that exceeds it.
\<close>

type_synonym memo = "jsstring \<rightharpoonup> jsstring set"

fun dfsKids ::
  "(memo \<Rightarrow> jsstring \<Rightarrow> (memo \<times> jsstring set) option) \<Rightarrow> memo \<Rightarrow> folder list \<Rightarrow>
   jsstring set \<Rightarrow> (memo \<times> jsstring set) option" where
  "dfsKids rec memo [] s = Some (memo, s)"
| "dfsKids rec memo (k # kids) s =
     (case rec memo (folder_id k) of
        None \<Rightarrow> None
      | Some (memo', xs) \<Rightarrow> dfsKids rec memo' kids (s \<union> xs))"

primrec dfs :: "nat \<Rightarrow> children \<Rightarrow> memo \<Rightarrow> jsstring \<Rightarrow> (memo \<times> jsstring set) option" where
  "dfs 0 children memo folderId = None"
| "dfs (Suc depth) children memo folderId =
     (case memo folderId of
        Some s \<Rightarrow> Some (memo, s)
      | None \<Rightarrow>
          (case dfsKids (dfs depth children) memo
                  (case children (Some folderId) of None \<Rightarrow> [] | Some kids \<Rightarrow> kids) {folderId} of
             None \<Rightarrow> None
           | Some (memo', s) \<Rightarrow> Some (memo'(folderId \<mapsto> s), s)))"

fun dfsAll :: "nat \<Rightarrow> children \<Rightarrow> memo \<Rightarrow> folder list \<Rightarrow> memo option" where
  "dfsAll depth children memo [] = Some memo"
| "dfsAll depth children memo (f # fs) =
     (case dfs depth children memo (folder_id f) of
        None \<Rightarrow> None
      | Some (memo', s) \<Rightarrow> dfsAll depth children memo' fs)"

definition buildDescendantsMemo :: "nat \<Rightarrow> folder list \<Rightarrow> memo option" where
  "buildDescendantsMemo depth actorFolders =
     dfsAll depth (buildFolderChildrenMap actorFolders) Map.empty actorFolders"

section \<open>Scope resolver\<close>

text \<open>
  \<^verbatim>\<open>
  function isDescendantFolder(folder, ancestorId) {
    let cur = folder;
    while (cur?.folder) {
      if (cur.folder.id === ancestorId) return true;
      cur = cur.folder;
    }
    return false;
  }
  \<close>
\<close>

fun isDescendantFolder :: "folder \<Rightarrow> jsstring \<Rightarrow> bool" where
  "isDescendantFolder (Folder i n t None) ancestorId = False"
| "isDescendantFolder (Folder i n t (Some p)) ancestorId =
     (if folder_id p = ancestorId then True else isDescendantFolder p ancestorId)"

definition actorInScope :: "actor \<Rightarrow> jsstring option \<Rightarrow> bool \<Rightarrow> bool" where
  "actorInScope a parentId includeSubfolders =
     (case parentId of
        None \<Rightarrow> True
      | Some pid \<Rightarrow>
          if actor_folder_id a = Some pid then True
          else if \<not> includeSubfolders then False
          else (case actor_folder a of
                  None \<Rightarrow> False
                | Some f \<Rightarrow> isDescendantFolder f pid))"

text \<open>
  The proper ancestors of a folder, nearest first: what walking the parent chain visits.
  A folder is a strict descendant of the folder with id \<open>r\<close> when \<open>r\<close> is the id of one of
  them.
\<close>

fun parentChain :: "folder \<Rightarrow> folder list" where
  "parentChain (Folder i n t None) = []"
| "parentChain (Folder i n t (Some p)) = p # parentChain p"

definition strictDescendantOf :: "folder \<Rightarrow> jsstring \<Rightarrow> bool" where
  "strictDescendantOf f r = (r \<in> folder_id ` set (parentChain f))"

section \<open>Folder catalog\<close>

record counts =
  direct :: nat
  withSubfolders :: nat

definition countActorsForFolder :: "jsstring \<Rightarrow> actor list \<Rightarrow> memo \<Rightarrow> counts" where
  "countActorsForFolder folderId as descendantsMemo =
     (let d = length (filter (\<lambda>a. actor_folder_id a = Some folderId) as);
          descSet = (case descendantsMemo folderId of None \<Rightarrow> {folderId} | Some s \<Rightarrow> s);
          ws = length (filter (\<lambda>a. case actor_folder a of
                                        None \<Rightarrow> False
                                      | Some f \<Rightarrow> folder_id f \<in> descSet) as)
      in \<lparr> direct = d, withSubfolders = ws \<rparr>)"

text \<open>A number in a template literal: its decimal digits.\<close>

fun decimal :: "nat \<Rightarrow> jsstring" where
  "decimal n = (if n < 10 then [48 + n] else decimal (n div 10) @ [48 + n mod 10])"

declare decimal.simps [simp del]

record rawEntry =
  raw_id :: jsstring
  raw_crumb :: jsstring
  raw_direct :: nat
  raw_withSubfolders :: nat

definition rawEntries :: "folder list \<Rightarrow> actor list \<Rightarrow> memo \<Rightarrow> rawEntry list" where
  "rawEntries actorFolders allActors descendantsMemo =
     map (\<lambda>f. let c = countActorsForFolder (folder_id f) allActors descendantsMemo in
               \<lparr> raw_id = folder_id f, raw_crumb = folderBreadcrumb f,
                 raw_direct = direct c, raw_withSubfolders = withSubfolders c \<rparr>)
       actorFolders"

text \<open>\<open>countsByCrumb\<close>: how many entries carry each breadcrumb.\<close>

definition countsByCrumb :: "rawEntry list \<Rightarrow> (jsstring \<rightharpoonup> nat)" where
  "countsByCrumb raw =
     foldl (\<lambda>m r. m(raw_crumb r \<mapsto> (case m (raw_crumb r) of None \<Rightarrow> 0 | Some c \<Rightarrow> c) + 1))
       Map.empty raw"

text \<open>One option of the dropdown: the pair of \<open>id\<close> and \<open>name\<close>.\<close>

definition folderOption :: "(jsstring \<rightharpoonup> nat) \<Rightarrow> rawEntry \<Rightarrow> jsstring \<times> jsstring" where
  "folderOption byCrumb r =
     (let isDup = (case byCrumb (raw_crumb r) of None \<Rightarrow> 0 | Some c \<Rightarrow> c) > 1;
          suffix = (if isDup then [32, 91] @ shortId (Some (raw_id r)) @ [93] else []);
          countLabel = decimal (raw_direct r) @ [47] @ decimal (raw_withSubfolders r)
      in (raw_id r, raw_crumb r @ suffix @ [32, 40] @ countLabel @ [41]))"

text \<open>
  \<open>sort((a, b) => a.name.localeCompare(b.name))\<close>. The collation of the host's locale is a
  parameter \<open>cmp\<close>; the sort is stable.
\<close>

fun insertOption ::
  "(jsstring \<Rightarrow> jsstring \<Rightarrow> int) \<Rightarrow> jsstring \<times> jsstring \<Rightarrow> (jsstring \<times> jsstring) list \<Rightarrow>
   (jsstring \<times> jsstring) list" where
  "insertOption cmp x [] = [x]"
| "insertOption cmp x (y # ys) =
     (if cmp (snd x) (snd y) \<le> 0 then x # y # ys else y # insertOption cmp x ys)"

definition sortOptions ::
  "(jsstring \<Rightarrow> jsstring \<Rightarrow> int) \<Rightarrow> (jsstring \<times> jsstring) list \<Rightarrow> (jsstring \<times> jsstring) list" where
  "sortOptions cmp xs = foldr (insertOption cmp) xs []"

text \<open>The folder options of the dialog, after the synthetic \<open>root\<close> option.\<close>

definition folderOptions ::
  "(jsstring \<Rightarrow> jsstring \<Rightarrow> int) \<Rightarrow> rawEntry list \<Rightarrow> (jsstring \<times> jsstring) list" where
  "folderOptions cmp raw = sortOptions cmp (map (folderOption (countsByCrumb raw)) raw)"

text \<open>
  The list \<open>options\<close> of \<open>openAlphabetizerDialog\<close>: \<open>Root (all Actors) (n)\<close> first, then the
  folders of type \<open>Actor\<close>. \<open>None\<close> when the descendant index is not built within the depth.
\<close>

definition dialogOptions ::
  "nat \<Rightarrow> (jsstring \<Rightarrow> jsstring \<Rightarrow> int) \<Rightarrow> world \<Rightarrow> (jsstring \<times> jsstring) list option" where
  "dialogOptions depth cmp w =
     (let actorFolders = filter (\<lambda>f. folder_type f = Actor_type) (folders w);
          allActors = actors w
      in case buildDescendantsMemo depth actorFolders of
           None \<Rightarrow> None
         | Some descendantsMemo \<Rightarrow>
             Some (([114, 111, 111, 116],
                    [82, 111, 111, 116, 32, 40, 97, 108, 108, 32, 65, 99, 116, 111, 114, 115, 41, 32, 40]
                      @ decimal (length allActors) @ [41])
                   # folderOptions cmp (rawEntries actorFolders allActors descendantsMemo)))"

section \<open>Reconciler\<close>

text \<open>The arguments of \<open>runAlphabetizer\<close>; a \<open>parentFolderId\<close> of \<open>null\<close> is the root.\<close>

record config =
  createAllLetters :: bool
  groupByType :: bool
  parentFolderId :: "jsstring option"
  includeSubfolders :: bool

text \<open>
  The host's services. \<open>getFolder\<close> is how the host resolves a folder id to the folder
  document (\<open>null\<close> for no id or an unknown one). \<open>Folder.createDocuments\<close> appends one folder
  of type \<open>Actor\<close> to \<open>game.folders\<close>; its id comes from the host's id generator, the
  parameter \<open>newId\<close>. \<open>Actor.updateDocuments\<close> sets the folder of every actor named by an
  update, one update after the other.
\<close>

definition getFolder :: "folder list \<Rightarrow> jsstring option \<Rightarrow> folder option" where
  "getFolder fs i = (case i of None \<Rightarrow> None | Some x \<Rightarrow> find (\<lambda>f. folder_id f = x) fs)"

definition createFolder ::
  "(folder list \<Rightarrow> jsstring) \<Rightarrow> folder list \<Rightarrow> jsstring \<Rightarrow> jsstring option \<Rightarrow> folder" where
  "createFolder newId fs name parentId = Folder (newId fs) name Actor_type (getFolder fs parentId)"

fun updateDocuments ::
  "folder list \<Rightarrow> (jsstring \<times> jsstring) list \<Rightarrow> actor list \<Rightarrow> actor list" where
  "updateDocuments fs [] as = as"
| "updateDocuments fs ((i, dest) # updates) as =
     updateDocuments fs updates
       (map (\<lambda>a. if actor_id a = i then a\<lparr> actor_folder := getFolder fs (Some dest) \<rparr> else a) as)"

text \<open>
  \<^verbatim>\<open>
  const findChildFolder = (name, parentId) => {
    return game.folders.find(f =>
      f.type === "Actor" &&
      f.name === name &&
      (parentId == null ? f.folder == null : f.folder?.id === parentId)
    ) ?? null;
  };
  \<close>
\<close>

definition isChildFolder :: "jsstring \<Rightarrow> jsstring option \<Rightarrow> folder \<Rightarrow> bool" where
  "isChildFolder name parentId f =
     (folder_type f = Actor_type \<and> folder_name f = name \<and>
      (case parentId of
         None \<Rightarrow> folder_folder f = None
       | Some p \<Rightarrow> folder_parent_id f = Some p))"

definition findChildFolder :: "folder list \<Rightarrow> jsstring \<Rightarrow> jsstring option \<Rightarrow> folder option" where
  "findChildFolder fs name parentId = find (isChildFolder name parentId) fs"

text \<open>
  \<^verbatim>\<open>
  const ensureFolder = async (name, parentId) => {
    const existing = findChildFolder(name, parentId);
    if (existing) return existing.id;
    const [created] = await Folder.createDocuments([{ name, type: "Actor", folder: parentId }]);
    return created.id;
  };
  \<close>
  The result is the folder collection afterwards and the id returned.
\<close>

definition ensureFolder ::
  "(folder list \<Rightarrow> jsstring) \<Rightarrow> folder list \<Rightarrow> jsstring \<Rightarrow> jsstring option \<Rightarrow>
   folder list \<times> jsstring" where
  "ensureFolder newId fs name parentId =
     (case findChildFolder fs name parentId of
        Some existing \<Rightarrow> (fs, folder_id existing)
      | None \<Rightarrow>
          (let created = createFolder newId fs name parentId in
           (fs @ [created], folder_id created)))"

text \<open>\<open>String(t)\<close> for a type partition: a type string, or \<open>null\<close> when types are not grouped.\<close>

definition String_of :: "jsstring option \<Rightarrow> jsstring" where
  "String_of t = (case t of None \<Rightarrow> [110, 117, 108, 108] | Some x \<Rightarrow> x)"

text \<open>The key of a letter folder: \<open>type::letter\<close> when grouping by type, else \<open>::letter\<close>.\<close>

definition bucketKey :: "bool \<Rightarrow> jsstring \<Rightarrow> jsstring \<Rightarrow> jsstring" where
  "bucketKey byType t L = (if byType then t @ [58, 58] @ L else [58, 58] @ L)"

text \<open>Step 1: the actors in scope.\<close>

definition scopeActors :: "config \<Rightarrow> world \<Rightarrow> actor list" where
  "scopeActors cfg w =
     filter (\<lambda>a. actorInScope a (parentFolderId cfg) (includeSubfolders cfg)) (actors w)"

text \<open>
  Step 2: the letters. \<open>Array.from(new Set(xs)).sort()\<close> is the sorted list of the distinct
  elements of \<open>xs\<close>, which does not depend on which occurrence \<open>Set\<close> keeps.
\<close>

definition alphabet :: "jsstring list" where
  "alphabet = map (\<lambda>c. [c]) [65 ..< 91]"

definition lettersOf :: "config \<Rightarrow> actor list \<Rightarrow> jsstring list" where
  "lettersOf cfg as =
     (if createAllLetters cfg then alphabet
      else sort (remdups (List.map_filter (\<lambda>a. normalizeLetter (actor_name a)) as)))"

text \<open>Step 3: the type partitions, \<open>[null]\<close> when types are not grouped.\<close>

definition typesOf :: "config \<Rightarrow> actor list \<Rightarrow> jsstring option list" where
  "typesOf cfg as =
     (if groupByType cfg then map Some (sort (remdups (map actor_type as))) else [None])"

text \<open>The loop that ensures the type folders, filling \<open>typeFolderIds\<close>.\<close>

fun ensureTypeFolders ::
  "(folder list \<Rightarrow> jsstring) \<Rightarrow> jsstring option \<Rightarrow> jsstring option list \<Rightarrow>
   folder list \<times> (jsstring \<rightharpoonup> jsstring) \<Rightarrow> folder list \<times> (jsstring \<rightharpoonup> jsstring)" where
  "ensureTypeFolders newId parent [] (fs, typeFolderIds) = (fs, typeFolderIds)"
| "ensureTypeFolders newId parent (t # ts) (fs, typeFolderIds) =
     (case ensureFolder newId fs (String_of t) parent of
        (fs', typeFolderId) \<Rightarrow>
          ensureTypeFolders newId parent ts (fs', typeFolderIds(String_of t \<mapsto> typeFolderId)))"

text \<open>
  The inner loop over the letters of one partition \<open>t\<close>, under the folder \<open>parentId\<close>, filling
  \<open>letterFolderIds\<close>.
\<close>

fun ensureLetters ::
  "(folder list \<Rightarrow> jsstring) \<Rightarrow> bool \<Rightarrow> jsstring option \<Rightarrow> jsstring option \<Rightarrow> jsstring list \<Rightarrow>
   folder list \<times> (jsstring \<rightharpoonup> jsstring) \<Rightarrow> folder list \<times> (jsstring \<rightharpoonup> jsstring)" where
  "ensureLetters newId byType t parentId [] (fs, letterFolderIds) = (fs, letterFolderIds)"
| "ensureLetters newId byType t parentId (L # Ls) (fs, letterFolderIds) =
     (case ensureFolder newId fs L parentId of
        (fs', i) \<Rightarrow>
          ensureLetters newId byType t parentId Ls
            (fs', letterFolderIds(bucketKey byType (String_of t) L \<mapsto> i)))"

text \<open>
  \<open>baseParentId\<close> of a partition: its type folder when grouping by type, else the parent
  folder of the configuration.
\<close>

definition baseParentId ::
  "config \<Rightarrow> (jsstring \<rightharpoonup> jsstring) \<Rightarrow> jsstring option \<Rightarrow> jsstring option" where
  "baseParentId cfg typeFolderIds t =
     (if groupByType cfg then typeFolderIds (String_of t) else parentFolderId cfg)"

text \<open>The outer loop over the partitions.\<close>

fun ensureLetterFolders ::
  "(folder list \<Rightarrow> jsstring) \<Rightarrow> config \<Rightarrow> (jsstring \<rightharpoonup> jsstring) \<Rightarrow> jsstring list \<Rightarrow>
   jsstring option list \<Rightarrow> folder list \<times> (jsstring \<rightharpoonup> jsstring) \<Rightarrow>
   folder list \<times> (jsstring \<rightharpoonup> jsstring)" where
  "ensureLetterFolders newId cfg typeFolderIds letters [] acc = acc"
| "ensureLetterFolders newId cfg typeFolderIds letters (t # ts) acc =
     ensureLetterFolders newId cfg typeFolderIds letters ts
       (ensureLetters newId (groupByType cfg) t (baseParentId cfg typeFolderIds t) letters acc)"

text \<open>
  Step 3 as a whole, the folder-ensure pass: the folder collection afterwards,
  \<open>typeFolderIds\<close> and \<open>letterFolderIds\<close>.
\<close>

definition ensurePass ::
  "(folder list \<Rightarrow> jsstring) \<Rightarrow> config \<Rightarrow> jsstring list \<Rightarrow> jsstring option list \<Rightarrow> folder list \<Rightarrow>
   folder list \<times> (jsstring \<rightharpoonup> jsstring) \<times> (jsstring \<rightharpoonup> jsstring)" where
  "ensurePass newId cfg letters types fs =
     (case (if groupByType cfg
            then ensureTypeFolders newId (parentFolderId cfg) types (fs, Map.empty)
            else (fs, Map.empty)) of
        (fs1, typeFolderIds) \<Rightarrow>
          (case ensureLetterFolders newId cfg typeFolderIds letters types (fs1, Map.empty) of
             (fs2, letterFolderIds) \<Rightarrow> (fs2, typeFolderIds, letterFolderIds)))"

text \<open>
  Step 4, the body of the loop over the actors: the update pushed for one actor, if any.
  \<open>NoLetter\<close>, \<open>NoFolder\<close> and \<open>InPlace\<close> are the three \<open>continue\<close> branches, in their order.
\<close>

datatype move = NoLetter | NoFolder | InPlace | Update jsstring jsstring

definition moveOf :: "bool \<Rightarrow> (jsstring \<rightharpoonup> jsstring) \<Rightarrow> actor \<Rightarrow> move" where
  "moveOf byType letterFolderIds a =
     (case normalizeLetter (actor_name a) of
        None \<Rightarrow> NoLetter
      | Some L \<Rightarrow>
          (case letterFolderIds (bucketKey byType (actor_type a) L) of
             None \<Rightarrow> NoFolder
           | Some destFolderId \<Rightarrow>
               if destFolderId = [] then NoFolder
               else if actor_folder_id a = Some destFolderId then InPlace
               else Update (actor_id a) destFolderId))"

definition collectUpdates ::
  "bool \<Rightarrow> (jsstring \<rightharpoonup> jsstring) \<Rightarrow> actor list \<Rightarrow> (jsstring \<times> jsstring) list" where
  "collectUpdates byType letterFolderIds as =
     List.map_filter
       (\<lambda>a. case moveOf byType letterFolderIds a of Update i d \<Rightarrow> Some (i, d) | _ \<Rightarrow> None) as"

text \<open>The four notifications of \<open>runAlphabetizer\<close>.\<close>

datatype notification =
  WarnNoActorsInScope
| WarnNoUsableLetter
| InfoNothingToMove
| InfoMoved nat bool

text \<open>\<open>runAlphabetizer\<close>: the world afterwards and the notification shown.\<close>

definition runAlphabetizer ::
  "(folder list \<Rightarrow> jsstring) \<Rightarrow> config \<Rightarrow> world \<Rightarrow> world \<times> notification" where
  "runAlphabetizer newId cfg w =
     (let as = scopeActors cfg w in
      if as = [] then (w, WarnNoActorsInScope)
      else
        let letters = lettersOf cfg as in
        if letters = [] then (w, WarnNoUsableLetter)
        else
          let types = typesOf cfg as in
          case ensurePass newId cfg letters types (folders w) of
            (fs, typeFolderIds, letterFolderIds) \<Rightarrow>
              let updates = collectUpdates (groupByType cfg) letterFolderIds as in
              if updates = [] then (w\<lparr> folders := fs \<rparr>, InfoNothingToMove)
              else (w\<lparr> folders := fs, actors := updateDocuments fs updates (actors w) \<rparr>,
                    InfoMoved (length updates) (groupByType cfg)))"

section \<open>Notions used in the proofs\<close>

text \<open>A descendant index in which the set of every folder id holds this id.\<close>

definition selfIndexed :: "memo \<Rightarrow> bool" where
  "selfIndexed m = (\<forall>x s. m x = Some s \<longrightarrow> x \<in> s)"

text \<open>The name of a folder option for a given suffix: breadcrumb, suffix and the two counts.\<close>

definition labelOf :: "rawEntry \<Rightarrow> jsstring \<Rightarrow> jsstring" where
  "labelOf r suffix = raw_crumb r @ suffix @ [32, 40] @ decimal (raw_direct r) @ [47] @
      decimal (raw_withSubfolders r) @ [41]"

text \<open>
  A folder list that is a forest: the ids are distinct and the parent of every folder of
  the list is in the list. The parent chain of a folder value is finite, so such a list
  has no cycle.
\<close>

definition forest :: "folder list \<Rightarrow> bool" where
  "forest fs = (distinct (map folder_id fs) \<and>
     (\<forall>f \<in> set fs. case folder_folder f of None \<Rightarrow> True | Some p \<Rightarrow> p \<in> set fs))"

text \<open>The direct children of the folder with id \<open>x\<close>, and the ids that reach \<open>x\<close> by parent links.\<close>

definition directChildren :: "folder list \<Rightarrow> jsstring \<Rightarrow> folder list" where
  "directChildren fs x = filter (\<lambda>k. folder_parent_id k = Some x) fs"

definition childRel :: "folder list \<Rightarrow> (jsstring \<times> jsstring) set" where
  "childRel fs = {(folder_id k, p) | k p. k \<in> set fs \<and> folder_parent_id k = Some p}"

definition descendantIds :: "folder list \<Rightarrow> jsstring \<Rightarrow> jsstring set" where
  "descendantIds fs x = {y. (y, x) \<in> (childRel fs)\<^sup>*}"

text \<open>An index whose every entry is the set of ids that reach its key.\<close>

definition exactIndex :: "folder list \<Rightarrow> memo \<Rightarrow> bool" where
  "exactIndex fs m = (\<forall>y S. m y = Some S \<longrightarrow> S = descendantIds fs y)"


text \<open>What a call of \<open>dfs\<close> on \<open>x\<close> achieves from an exact index: it returns the set of \<open>x\<close>,
  and the index stays exact, keeps its entries and has one for \<open>x\<close>.\<close>

definition dfsGood ::
  "folder list \<Rightarrow> (memo \<Rightarrow> jsstring \<Rightarrow> (memo \<times> jsstring set) option) \<Rightarrow> jsstring \<Rightarrow> bool" where
  "dfsGood fs rec x = (\<forall>m. exactIndex fs m \<longrightarrow>
     (\<exists>m'. rec m x = Some (m', descendantIds fs x) \<and> exactIndex fs m' \<and>
           dom m \<subseteq> dom m' \<and> x \<in> dom m'))"

text \<open>
  The parent id of an \<open>ensureFolder\<close> call is resolvable: it is \<open>null\<close> or the id of a folder
  of the collection.
\<close>

definition resolvable :: "folder list \<Rightarrow> jsstring option \<Rightarrow> bool" where
  "resolvable fs parentId = (case parentId of None \<Rightarrow> True | Some p \<Rightarrow> p \<in> folder_id ` set fs)"

text \<open>
  The name and parent are taken in the collection: \<open>findChildFolder\<close> finds a folder, and its
  id is \<open>i\<close>.
\<close>

definition slot :: "folder list \<Rightarrow> jsstring \<Rightarrow> jsstring option \<Rightarrow> jsstring \<Rightarrow> bool" where
  "slot fs name parentId i = (\<exists>e. findChildFolder fs name parentId = Some e \<and> folder_id e = i)"

text \<open>
  The folder collections reached from \<open>fs\<close> by calls of \<open>ensureFolder\<close> with resolvable parent
  ids, whatever the id generator.
\<close>

inductive ensured :: "folder list \<Rightarrow> folder list \<Rightarrow> bool"
  for fs :: "folder list" where
  ensured_refl: "ensured fs fs"
| ensured_step: "ensured fs fs1 \<Longrightarrow> resolvable fs1 parentId \<Longrightarrow>
     ensured fs (fst (ensureFolder newId fs1 name parentId))"

text \<open>
  Every folder of the collection satisfies \<open>P\<close>, and every id in the map is the id of a folder
  of the collection.
\<close>

definition planIn :: "(folder \<Rightarrow> bool) \<Rightarrow> folder list \<Rightarrow> (jsstring \<rightharpoonup> jsstring) \<Rightarrow> bool" where
  "planIn P fs m = ((\<forall>f \<in> set fs. P f) \<and> (\<forall>k d. m k = Some d \<longrightarrow> d \<in> folder_id ` set fs))"

text \<open>
  The number of folders of a list that \<open>findChildFolder\<close> accepts for a name and a parent:
  folders of type \<open>Actor\<close> with this name and this parent. \<open>onlyOnes created fs\<close>: each folder
  of \<open>created\<close> is the only folder of \<open>fs\<close> of type \<open>Actor\<close> with its name and its parent.
\<close>

definition slotCount :: "folder list \<Rightarrow> jsstring \<Rightarrow> jsstring option \<Rightarrow> nat" where
  "slotCount fs name parentId = length (filter (isChildFolder name parentId) fs)"

definition onlyOnes :: "folder list \<Rightarrow> folder list \<Rightarrow> bool" where
  "onlyOnes created fs =
     (\<forall>f \<in> set created. slotCount fs (folder_name f) (folder_parent_id f) = 1)"

text \<open>
  The destination that step 4 queues for an actor, if any, and the actor after the batch
  update of a run: an actor in scope with a queued destination gets the folder that the
  host resolves for it.
\<close>

definition destOf :: "bool \<Rightarrow> (jsstring \<rightharpoonup> jsstring) \<Rightarrow> actor \<Rightarrow> jsstring option" where
  "destOf byType lm a = (case moveOf byType lm a of Update i d \<Rightarrow> Some d | _ \<Rightarrow> None)"

definition moved ::
  "folder list \<Rightarrow> bool \<Rightarrow> (jsstring \<rightharpoonup> jsstring) \<Rightarrow> (actor \<Rightarrow> bool) \<Rightarrow> actor \<Rightarrow> actor" where
  "moved fs byType lm inScope a =
     (if inScope a
      then (case destOf byType lm a of
              None \<Rightarrow> a
            | Some d \<Rightarrow> a\<lparr> actor_folder := getFolder fs (Some d) \<rparr>)
      else a)"

text \<open>
  The plan of a pass holds in \<open>fs\<close>: every type folder and every letter folder of the maps
  is the folder that \<open>findChildFolder\<close> finds in \<open>fs\<close>.
\<close>

definition planned ::
  "config \<Rightarrow> folder list \<Rightarrow> jsstring list \<Rightarrow> jsstring option list \<Rightarrow>
   (jsstring \<rightharpoonup> jsstring) \<Rightarrow> (jsstring \<rightharpoonup> jsstring) \<Rightarrow> bool" where
  "planned cfg fs letters types tm lm =
     ((groupByType cfg \<longrightarrow>
         (\<forall>t \<in> set types. \<exists>i. tm (String_of t) = Some i \<and>
             slot fs (String_of t) (parentFolderId cfg) i)) \<and>
      (\<forall>t \<in> set types. \<forall>L \<in> set letters.
         \<exists>i. lm (bucketKey (groupByType cfg) (String_of t) L) = Some i \<and>
             slot fs L (baseParentId cfg tm t) i))"

text \<open>
  A world as the host keeps it: the actor ids are distinct, the folder of every actor is in
  the folder collection, and so is the parent of every folder.
\<close>

definition wellFormed :: "world \<Rightarrow> bool" where
  "wellFormed w =
     (distinct (map actor_id (actors w)) \<and>
      (\<forall>a \<in> set (actors w). case actor_folder a of None \<Rightarrow> True | Some f \<Rightarrow> f \<in> set (folders w)) \<and>
      (\<forall>f \<in> set (folders w). case folder_folder f of None \<Rightarrow> True | Some p \<Rightarrow> p \<in> set (folders w)))"

section \<open>A small world\<close>

text \<open>
  The code units of an ASCII literal, and a world of three folders and four actors: the
  folder \<open>Bosses\<close> lies in \<open>Villains\<close>; \<open>Heroes\<close> and \<open>Villains\<close> are at the root.
\<close>

definition js :: "string \<Rightarrow> jsstring" where
  "js s = map of_char s"

definition exVillains :: folder where
  "exVillains = Folder (js ''fold0001'') (js ''Villains'') Actor_type None"

definition exBosses :: folder where
  "exBosses = Folder (js ''fold0002'') (js ''Bosses'') Actor_type (Some exVillains)"

definition exHeroes :: folder where
  "exHeroes = Folder (js ''fold0003'') (js ''Heroes'') Actor_type None"

definition exAang :: actor where
  "exAang = \<lparr> actor_id = js ''actr0001'', actor_name = Some (js ''Aang''),
              actor_type = js ''hero'', actor_folder = None \<rparr>"

definition exBob :: actor where
  "exBob = \<lparr> actor_id = js ''actr0002'', actor_name = Some (js ''bob''),
             actor_type = js ''villain'', actor_folder = Some exBosses \<rparr>"

definition exZuko :: actor where
  "exZuko = \<lparr> actor_id = js ''actr0003'', actor_name = Some (js ''Zuko''),
              actor_type = js ''villain'', actor_folder = Some exVillains \<rparr>"

definition exNumbers :: actor where
  "exNumbers = \<lparr> actor_id = js ''actr0004'', actor_name = Some (js ''123''),
                 actor_type = js ''hero'', actor_folder = Some exHeroes \<rparr>"

definition exWorld :: world where
  "exWorld = \<lparr> folders = [exVillains, exBosses, exHeroes],
               actors = [exAang, exBob, exZuko, exNumbers] \<rparr>"

definition exMemo :: memo where
  "exMemo = [js ''fold0001'' \<mapsto> {js ''fold0001'', js ''fold0002''},
             js ''fold0002'' \<mapsto> {js ''fold0002''},
             js ''fold0003'' \<mapsto> {js ''fold0003''}]"

text \<open>An id generator for the examples, and two configurations.\<close>

definition exNewId :: "folder list \<Rightarrow> jsstring" where
  "exNewId fs = js ''new'' @ decimal (length fs)"

definition cfgHeroes :: config where
  "cfgHeroes = \<lparr> createAllLetters = False, groupByType = False,
     parentFolderId = Some (js ''fold0003''), includeSubfolders = True \<rparr>"

definition cfgBossesOnly :: config where
  "cfgBossesOnly = \<lparr> createAllLetters = True, groupByType = True,
     parentFolderId = Some (js ''fold0002''), includeSubfolders = False \<rparr>"

text \<open>
  Folders with the same name at the root, two of them with ids that end alike, a collation
  by code units, and the entry of such a folder when the world has no actor.
\<close>

definition exTwinA :: folder where
  "exTwinA = Folder (js ''aaaa1234'') (js ''Bosses'') Actor_type None"

definition exTwinB :: folder where
  "exTwinB = Folder (js ''bbbb1234'') (js ''Bosses'') Actor_type None"

definition exTwinC :: folder where
  "exTwinC = Folder (js ''cccc5678'') (js ''Bosses'') Actor_type None"

definition exCompare :: "jsstring \<Rightarrow> jsstring \<Rightarrow> int" where
  "exCompare a b = (if a < b then - 1 else if a = b then 0 else 1)"

definition exRaw :: "folder \<Rightarrow> rawEntry" where
  "exRaw f = \<lparr> raw_id = folder_id f, raw_crumb = js ''Bosses'', raw_direct = 0,
     raw_withSubfolders = 0 \<rparr>"

text \<open>
  The root configuration, the three letter folders that a run creates in the small world,
  the world after this run and the letter map of the run.
\<close>

definition cfgRoot :: config where
  "cfgRoot = \<lparr> createAllLetters = False, groupByType = False,
     parentFolderId = None, includeSubfolders = True \<rparr>"

definition exA :: folder where "exA = Folder (js ''new3'') (js ''A'') Actor_type None"

definition exB :: folder where "exB = Folder (js ''new4'') (js ''B'') Actor_type None"

definition exZ :: folder where "exZ = Folder (js ''new5'') (js ''Z'') Actor_type None"

definition exWorld1 :: world where
  "exWorld1 = \<lparr> folders = [exVillains, exBosses, exHeroes, exA, exB, exZ],
      actors = [exAang\<lparr> actor_folder := Some exA \<rparr>, exBob\<lparr> actor_folder := Some exB \<rparr>,
                exZuko\<lparr> actor_folder := Some exZ \<rparr>, exNumbers] \<rparr>"

definition exPlan :: "jsstring \<rightharpoonup> jsstring" where
  "exPlan = [js ''::A'' \<mapsto> js ''new3'', js ''::B'' \<mapsto> js ''new4'', js ''::Z'' \<mapsto> js ''new5'']"







section \<open>Properties of the letter classifier\<close>

lemma find_dropWhile_other:
  assumes "\<And>x. Q x \<Longrightarrow> \<not> P x"
  shows "find P (dropWhile Q xs) = find P xs"
  using assms by (induction xs) auto

lemma find_append_none:
  assumes "\<And>x. x \<in> set ys \<Longrightarrow> \<not> P x"
  shows "find P (xs @ ys) = find P xs"
proof (induction xs)
  case Nil
  from assms show ?case by (induction ys) auto
next
  case (Cons a xs)
  then show ?case by simp
qed

lemma find_drop_trailing:
  assumes "\<And>x. Q x \<Longrightarrow> \<not> P x"
  shows "find P (rev (dropWhile Q (rev xs))) = find P xs"
proof -
  have split: "xs = rev (dropWhile Q (rev xs)) @ rev (takeWhile Q (rev xs))"
    by (metis rev_append rev_rev_ident takeWhile_dropWhile_id)
  have "\<And>x. x \<in> set (rev (takeWhile Q (rev xs))) \<Longrightarrow> \<not> P x"
    using assms by (auto dest: set_takeWhileD)
  then have "find P (rev (dropWhile Q (rev xs)) @ rev (takeWhile Q (rev xs)))
      = find P (rev (dropWhile Q (rev xs)))"
    by (rule find_append_none)
  with split show ?thesis by simp
qed

lemma whitespace_not_letter: "isWhiteSpace c \<Longrightarrow> \<not> isAsciiLetter c"
  by (auto simp: isWhiteSpace_def isAsciiLetter_def)

lemma find_trim: "find isAsciiLetter (trim s) = find isAsciiLetter s"
  unfolding trim_def
  by (simp add: find_drop_trailing find_dropWhile_other whitespace_not_letter)

lemma normalizeLetter_find:
  "normalizeLetter name =
     map_option (\<lambda>m. [toUpperCase m]) (find isAsciiLetter (case name of None \<Rightarrow> [] | Some n \<Rightarrow> n))"
  by (simp add: normalizeLetter_def find_trim split: option.splits)

lemma find_first_index:
  assumes "i < length s" and "P (s ! i)" and "\<And>j. j < i \<Longrightarrow> \<not> P (s ! j)"
  shows "find P s = Some (s ! i)"
  using assms
proof (induction s arbitrary: i)
  case Nil
  then show ?case by simp
next
  case (Cons a s)
  show ?case
  proof (cases i)
    case 0
    with Cons.prems show ?thesis by simp
  next
    case (Suc k)
    have "\<not> P a" using Cons.prems(3)[of 0] Suc by simp
    moreover have "find P s = Some (s ! k)"
    proof (rule Cons.IH)
      show "k < length s" using Cons.prems(1) Suc by simp
      show "P (s ! k)" using Cons.prems(2) Suc by simp
      show "\<And>j. j < k \<Longrightarrow> \<not> P (s ! j)" using Cons.prems(3)[of "Suc j" for j] Suc by auto
    qed
    ultimately show ?thesis using Suc by simp
  qed
qed

lemma toUpperCase_letter: "isAsciiLetter c \<Longrightarrow> 65 \<le> toUpperCase c \<and> toUpperCase c \<le> 90"
  by (auto simp: isAsciiLetter_def toUpperCase_def)

text \<open>
  C3. For every name, \<open>null\<close> and \<open>undefined\<close> and the empty string included, the letter
  classifier returns the first code unit of the name that is an ASCII letter, scanning
  from the left, in upper case (a code unit from 65 to 90); it returns no bucket when the
  name has no ASCII letter. A code unit above 122, such as 201 (E with acute accent), is
  never an ASCII letter, so it is never matched.
\<close>

theorem normalizeLetter_first_ascii_letter:
  "normalizeLetter None = None \<and>
   normalizeLetter (Some []) = None \<and>
   (\<forall>s. (\<forall>c \<in> set s. \<not> isAsciiLetter c) \<longrightarrow> normalizeLetter (Some s) = None) \<and>
   (\<forall>s i. i < length s \<and> isAsciiLetter (s ! i) \<and> (\<forall>j < i. \<not> isAsciiLetter (s ! j)) \<longrightarrow>
      normalizeLetter (Some s) = Some [toUpperCase (s ! i)] \<and>
      65 \<le> toUpperCase (s ! i) \<and> toUpperCase (s ! i) \<le> 90 \<and>
      (toUpperCase (s ! i) = s ! i \<or> toUpperCase (s ! i) + 32 = s ! i)) \<and>
   (\<forall>c. isAsciiLetter c \<longleftrightarrow> (65 \<le> c \<and> c \<le> 90) \<or> (97 \<le> c \<and> c \<le> 122)) \<and>
   \<not> isAsciiLetter 201"
proof (intro conjI allI impI)
  show "normalizeLetter None = None"
    by (simp add: normalizeLetter_find)
  show "normalizeLetter (Some []) = None"
    by (simp add: normalizeLetter_find)
next
  fix s :: jsstring
  assume "\<forall>c \<in> set s. \<not> isAsciiLetter c"
  then have "find isAsciiLetter s = None"
    by (simp add: find_None_iff)
  then show "normalizeLetter (Some s) = None"
    by (simp add: normalizeLetter_find)
next
  fix s :: jsstring and i
  assume h: "i < length s \<and> isAsciiLetter (s ! i) \<and> (\<forall>j < i. \<not> isAsciiLetter (s ! j))"
  then have "find isAsciiLetter s = Some (s ! i)"
    by (intro find_first_index) auto
  then show "normalizeLetter (Some s) = Some [toUpperCase (s ! i)]"
    by (simp add: normalizeLetter_find)
  from h show "65 \<le> toUpperCase (s ! i)" "toUpperCase (s ! i) \<le> 90"
    using toUpperCase_letter by auto
  from h show "toUpperCase (s ! i) = s ! i \<or> toUpperCase (s ! i) + 32 = s ! i"
    by (auto simp: isAsciiLetter_def toUpperCase_def)
next
  fix c
  show "isAsciiLetter c \<longleftrightarrow> (65 \<le> c \<and> c \<le> 90) \<or> (97 \<le> c \<and> c \<le> 122)"
    by (simp add: isAsciiLetter_def)
next
  show "\<not> isAsciiLetter 201"
    by (simp add: isAsciiLetter_def)
qed

text \<open>
  The name \<open>100 Goblins\<close> classifies to \<open>G\<close> (71), the name with an inverted exclamation
  mark, E with acute accent and \<open>lan!\<close> classifies to \<open>L\<close> (76), the first ASCII letter after
  the accented one, and a name of digits has no bucket.
\<close>

theorem normalizeLetter_first_ascii_letter_witness:
  "normalizeLetter (Some [49, 48, 48, 32, 71, 111, 98, 108, 105, 110, 115]) = Some [71] \<and>
   normalizeLetter (Some [161, 201, 108, 97, 110, 33]) = Some [76] \<and>
   normalizeLetter (Some [49, 50, 51]) = None"
proof -
  let ?g = "[49, 48, 48, 32, 71, 111, 98, 108, 105, 110, 115] :: jsstring"
  let ?e = "[161, 201, 108, 97, 110, 33] :: jsstring"
  let ?d = "[49, 50, 51] :: jsstring"
  have some: "\<And>s i. i < length s \<and> isAsciiLetter (s ! i) \<and> (\<forall>j < i. \<not> isAsciiLetter (s ! j)) \<Longrightarrow>
      normalizeLetter (Some s) = Some [toUpperCase (s ! i)]"
    using normalizeLetter_first_ascii_letter by blast
  have none: "\<And>s. (\<forall>c \<in> set s. \<not> isAsciiLetter c) \<Longrightarrow> normalizeLetter (Some s) = None"
    using normalizeLetter_first_ascii_letter by blast
  have lt4: "\<And>j::nat. j < 4 \<Longrightarrow> j = 0 \<or> j = 1 \<or> j = 2 \<or> j = 3" by arith
  have lt2: "\<And>j::nat. j < 2 \<Longrightarrow> j = 0 \<or> j = 1" by arith
  have "normalizeLetter (Some ?g) = Some [toUpperCase (?g ! 4)]"
    by (rule some) (auto simp: isAsciiLetter_def dest!: lt4)
  moreover have "normalizeLetter (Some ?e) = Some [toUpperCase (?e ! 2)]"
    by (rule some) (auto simp: isAsciiLetter_def dest!: lt2)
  moreover have "normalizeLetter (Some ?d) = None"
    by (rule none) (simp add: isAsciiLetter_def)
  ultimately show ?thesis
    by (simp add: toUpperCase_def)
qed

section \<open>Facts of the small world\<close>

lemma ex_folder_ids:
  "folder_id exVillains = js ''fold0001''"
  "folder_id exBosses = js ''fold0002''"
  "folder_id exHeroes = js ''fold0003''"
  "folder_parent_id exVillains = None"
  "folder_parent_id exBosses = Some (js ''fold0001'')"
  "folder_parent_id exHeroes = None"
  "folder_folder exVillains = None"
  "folder_folder exBosses = Some exVillains"
  "folder_folder exHeroes = None"
  by (simp_all add: exVillains_def exBosses_def exHeroes_def folder_parent_id_def)

lemma ex_folder_neq:
  "js ''fold0001'' \<noteq> js ''fold0002''" "js ''fold0001'' \<noteq> js ''fold0003''"
  "js ''fold0002'' \<noteq> js ''fold0003''" "js ''fold0002'' \<noteq> js ''fold0001''"
  "js ''fold0003'' \<noteq> js ''fold0001''" "js ''fold0003'' \<noteq> js ''fold0002''"
  by (simp_all add: js_def)

lemma ex_actor_folders:
  "actor_folder exAang = None" "actor_folder exBob = Some exBosses"
  "actor_folder exZuko = Some exVillains" "actor_folder exNumbers = Some exHeroes"
  "actor_folder_id exAang = None" "actor_folder_id exBob = Some (js ''fold0002'')"
  "actor_folder_id exZuko = Some (js ''fold0001'')"
  "actor_folder_id exNumbers = Some (js ''fold0003'')"
  by (simp_all add: exAang_def exBob_def exZuko_def exNumbers_def actor_folder_id_def
      ex_folder_ids)

lemma ex_memo: "buildDescendantsMemo 2 (folders exWorld) = Some exMemo"
  apply (simp add: buildDescendantsMemo_def buildFolderChildrenMap_def addChild_def
      ex_folder_ids ex_folder_neq numeral_2_eq_2 exMemo_def exWorld_def)
  apply (auto simp: fun_eq_iff ex_folder_neq)
  done

section \<open>Properties of the scope resolver\<close>

lemma isDescendantFolder_chain: "isDescendantFolder f r = strictDescendantOf f r"
  unfolding strictDescendantOf_def
  by (induction f r rule: isDescendantFolder.induct) auto

text \<open>
  C2. \<open>actorInScope\<close> is a function on every actor, root id and flag (a folder value has a
  finite parent chain, so the walk of \<open>isDescendantFolder\<close> ends). With no root id the
  result is true; for an actor without folder and a root id it is false, whatever the
  flag; when the actor's folder has the root id it is true; otherwise it is true exactly
  when subfolders are included and the actor's folder is a strict descendant of the
  folder with the root id, that is, the root id is met on the parent chain.
\<close>

theorem actorInScope_cases:
  "actorInScope a None inc = True \<and>
   (actor_folder a = None \<longrightarrow> actorInScope a (Some r) inc = False) \<and>
   (\<forall>f. actor_folder a = Some f \<and> folder_id f = r \<longrightarrow> actorInScope a (Some r) inc = True) \<and>
   (\<forall>f. actor_folder a = Some f \<and> folder_id f \<noteq> r \<longrightarrow>
        actorInScope a (Some r) inc = (inc \<and> strictDescendantOf f r))"
  by (auto simp: actorInScope_def actor_folder_id_def isDescendantFolder_chain)

theorem actorInScope_cases_witness:
  "actorInScope exBob None False \<and>
   \<not> actorInScope exAang (Some (js ''fold0001'')) True \<and>
   actorInScope exBob (Some (js ''fold0002'')) False \<and>
   actorInScope exBob (Some (js ''fold0001'')) True \<and>
   \<not> actorInScope exBob (Some (js ''fold0001'')) False \<and>
   \<not> actorInScope exBob (Some (js ''fold0003'')) True"
proof -
  have none: "actor_folder exAang = None"
    by (simp add: ex_actor_folders)
  have same: "actor_folder exBob = Some exBosses \<and> folder_id exBosses = js ''fold0002''"
    by (simp add: ex_actor_folders ex_folder_ids)
  have other1: "actor_folder exBob = Some exBosses \<and> folder_id exBosses \<noteq> js ''fold0001''"
    by (simp add: ex_actor_folders ex_folder_ids ex_folder_neq)
  have other3: "actor_folder exBob = Some exBosses \<and> folder_id exBosses \<noteq> js ''fold0003''"
    by (simp add: ex_actor_folders ex_folder_ids ex_folder_neq)
  have d1: "strictDescendantOf exBosses (js ''fold0001'')"
    by (simp add: strictDescendantOf_def exBosses_def exVillains_def)
  have d3: "\<not> strictDescendantOf exBosses (js ''fold0003'')"
    by (simp add: strictDescendantOf_def exBosses_def exVillains_def ex_folder_neq)
  have "actorInScope exBob None False"
    using actorInScope_cases[of exBob False] by simp
  moreover have "\<not> actorInScope exAang (Some (js ''fold0001'')) True"
    using actorInScope_cases[of exAang True "js ''fold0001''"] none by simp
  moreover have "actorInScope exBob (Some (js ''fold0002'')) False"
    using actorInScope_cases[of exBob False "js ''fold0002''"] same by blast
  moreover have "actorInScope exBob (Some (js ''fold0001'')) True"
    using actorInScope_cases[of exBob True "js ''fold0001''"] other1 d1 by blast
  moreover have "\<not> actorInScope exBob (Some (js ''fold0001'')) False"
    using actorInScope_cases[of exBob False "js ''fold0001''"] other1 by blast
  moreover have "\<not> actorInScope exBob (Some (js ''fold0003'')) True"
    using actorInScope_cases[of exBob True "js ''fold0003''"] other3 d3 by blast
  ultimately show ?thesis by blast
qed

section \<open>Every set of the descendant index holds its own key\<close>

lemma length_filter_mono:
  assumes "\<And>x. x \<in> set xs \<Longrightarrow> P x \<Longrightarrow> Q x"
  shows "length (filter P xs) \<le> length (filter Q xs)"
  using assms by (induction xs) auto

lemma dfsKids_selfIndexed:
  assumes "\<And>m x m' xs. selfIndexed m \<Longrightarrow> rec m x = Some (m', xs) \<Longrightarrow> selfIndexed m'"
    and "selfIndexed memo" and "dfsKids rec memo kids s = Some (memo', s')"
  shows "selfIndexed memo' \<and> s \<subseteq> s'"
  using assms(2,3)
proof (induction kids arbitrary: memo s)
  case Nil
  then show ?case by simp
next
  case (Cons k kids)
  from Cons.prems(2) obtain m1 xs where r: "rec memo (folder_id k) = Some (m1, xs)"
    and rest: "dfsKids rec m1 kids (s \<union> xs) = Some (memo', s')"
    by (auto split: option.splits)
  have "selfIndexed m1" using assms(1) Cons.prems(1) r by blast
  from Cons.IH[OF this rest] show ?case by auto
qed

lemma dfs_selfIndexed:
  "selfIndexed memo \<Longrightarrow> dfs depth children memo x = Some (memo', s) \<Longrightarrow> selfIndexed memo'"
proof (induction depth arbitrary: memo x memo' s)
  case 0
  then show ?case by simp
next
  case (Suc depth)
  show ?case
  proof (cases "memo x")
    case (Some t)
    with Suc.prems show ?thesis by simp
  next
    case None
    let ?kids = "case children (Some x) of None \<Rightarrow> [] | Some kids \<Rightarrow> kids"
    from Suc.prems(2) None obtain m1 where
      k: "dfsKids (dfs depth children) memo ?kids {x} = Some (m1, s)" and
      m: "memo' = m1(x \<mapsto> s)"
      by (auto split: option.splits)
    have "selfIndexed m1 \<and> {x} \<subseteq> s"
      by (rule dfsKids_selfIndexed[OF _ Suc.prems(1) k]) (rule Suc.IH)
    with m show ?thesis by (auto simp: selfIndexed_def)
  qed
qed

lemma dfsAll_selfIndexed:
  "selfIndexed memo \<Longrightarrow> dfsAll depth children memo fs = Some memo' \<Longrightarrow> selfIndexed memo'"
proof (induction fs arbitrary: memo)
  case Nil
  then show ?case by simp
next
  case (Cons f fs)
  from Cons.prems(2) obtain m1 s where d: "dfs depth children memo (folder_id f) = Some (m1, s)"
    and rest: "dfsAll depth children m1 fs = Some memo'"
    by (auto split: option.splits)
  from dfs_selfIndexed[OF Cons.prems(1) d] Cons.IH rest show ?case by blast
qed

lemma buildDescendantsMemo_selfIndexed:
  "buildDescendantsMemo depth fs = Some memo \<Longrightarrow> selfIndexed memo"
  unfolding buildDescendantsMemo_def
  by (rule dfsAll_selfIndexed[rotated]) (auto simp: selfIndexed_def)

text \<open>
  C10. For every folder id and every list of actors, with the descendant index that
  \<open>buildDescendantsMemo\<close> returns, the counts of \<open>countActorsForFolder\<close> satisfy
  \<open>direct \<le> withSubfolders\<close>: an actor counted as directly in the folder is counted with
  subfolders too, because the set of the index for a folder id holds this id (and the
  fallback set for an id without entry is the singleton of the id).
\<close>

theorem countActorsForFolder_direct_le:
  assumes "buildDescendantsMemo depth actorFolders = Some descendantsMemo"
  shows "direct (countActorsForFolder folderId as descendantsMemo)
       \<le> withSubfolders (countActorsForFolder folderId as descendantsMemo)"
proof -
  have "selfIndexed descendantsMemo"
    using assms by (rule buildDescendantsMemo_selfIndexed)
  then have "folderId \<in> (case descendantsMemo folderId of None \<Rightarrow> {folderId} | Some s \<Rightarrow> s)"
    by (auto simp: selfIndexed_def split: option.splits)
  then show ?thesis
    unfolding countActorsForFolder_def Let_def
    by (auto intro!: length_filter_mono simp: actor_folder_id_def split: option.splits)
qed

text \<open>In the small world, \<open>Villains\<close> holds one actor directly and two with its subfolder.\<close>

theorem countActorsForFolder_direct_le_witness:
  "buildDescendantsMemo 2 (folders exWorld) = Some exMemo \<and>
   direct (countActorsForFolder (js ''fold0001'') (actors exWorld) exMemo) = 1 \<and>
   withSubfolders (countActorsForFolder (js ''fold0001'') (actors exWorld) exMemo) = 2 \<and>
   direct (countActorsForFolder (js ''fold0001'') (actors exWorld) exMemo)
     \<le> withSubfolders (countActorsForFolder (js ''fold0001'') (actors exWorld) exMemo)"
proof -
  have "direct (countActorsForFolder (js ''fold0001'') (actors exWorld) exMemo) = 1"
    by (simp add: countActorsForFolder_def exWorld_def ex_actor_folders ex_folder_ids
        ex_folder_neq exMemo_def)
  moreover have "withSubfolders (countActorsForFolder (js ''fold0001'') (actors exWorld) exMemo) = 2"
    by (simp add: countActorsForFolder_def exWorld_def ex_actor_folders ex_folder_ids
        ex_folder_neq exMemo_def)
  ultimately show ?thesis
    using ex_memo countActorsForFolder_direct_le[OF ex_memo, of "js ''fold0001''" "actors exWorld"]
    by simp
qed

section \<open>Runs that stop before any mutation\<close>

text \<open>
  C6. When no actor is in scope, \<open>runAlphabetizer\<close> warns that no actor was found and
  returns the world as it was. When actors are in scope, \<open>createAllLetters\<close> is off and no
  actor in scope has a letter, it warns that no actor had a usable letter and returns the
  world as it was. In both cases no folder is created and no actor is reassigned.
\<close>

theorem runAlphabetizer_no_mutation:
  "(scopeActors cfg w = [] \<longrightarrow> runAlphabetizer newId cfg w = (w, WarnNoActorsInScope)) \<and>
   (scopeActors cfg w \<noteq> [] \<and> \<not> createAllLetters cfg \<and>
    (\<forall>a \<in> set (scopeActors cfg w). normalizeLetter (actor_name a) = None) \<longrightarrow>
      runAlphabetizer newId cfg w = (w, WarnNoUsableLetter))"
proof (intro conjI impI)
  assume "scopeActors cfg w = []"
  then show "runAlphabetizer newId cfg w = (w, WarnNoActorsInScope)"
    by (simp add: runAlphabetizer_def)
next
  assume h: "scopeActors cfg w \<noteq> [] \<and> \<not> createAllLetters cfg \<and>
    (\<forall>a \<in> set (scopeActors cfg w). normalizeLetter (actor_name a) = None)"
  then have "List.map_filter (\<lambda>a. normalizeLetter (actor_name a)) (scopeActors cfg w) = []"
    by (auto simp: List.map_filter_def filter_empty_conv)
  with h have "lettersOf cfg (scopeActors cfg w) = []"
    by (simp add: lettersOf_def)
  with h show "runAlphabetizer newId cfg w = (w, WarnNoUsableLetter)"
    by (simp add: runAlphabetizer_def Let_def)
qed

lemma ex_scope_heroes: "scopeActors cfgHeroes exWorld = [exNumbers]"
  by (simp add: scopeActors_def cfgHeroes_def exWorld_def actorInScope_def ex_actor_folders
      ex_folder_neq exVillains_def exBosses_def)

lemma ex_scope_bosses_only:
  "scopeActors cfgBossesOnly (exWorld\<lparr> actors := [exAang, exZuko] \<rparr>) = []"
  by (simp add: scopeActors_def cfgBossesOnly_def exWorld_def actorInScope_def ex_actor_folders
      ex_folder_neq exVillains_def exBosses_def)

text \<open>
  With only \<open>Aang\<close> and \<open>Zuko\<close> in the world, nothing is directly in \<open>Bosses\<close>; in the small
  world the only actor under \<open>Heroes\<close> is named \<open>123\<close>.
\<close>

theorem runAlphabetizer_no_mutation_witness:
  "scopeActors cfgBossesOnly (exWorld\<lparr> actors := [exAang, exZuko] \<rparr>) = [] \<and>
   runAlphabetizer exNewId cfgBossesOnly (exWorld\<lparr> actors := [exAang, exZuko] \<rparr>)
     = (exWorld\<lparr> actors := [exAang, exZuko] \<rparr>, WarnNoActorsInScope) \<and>
   scopeActors cfgHeroes exWorld = [exNumbers] \<and>
   normalizeLetter (actor_name exNumbers) = None \<and>
   runAlphabetizer exNewId cfgHeroes exWorld = (exWorld, WarnNoUsableLetter)"
proof -
  have n: "normalizeLetter (actor_name exNumbers) = None"
    by (simp add: exNumbers_def js_def normalizeLetter_def trim_def isWhiteSpace_def
        isAsciiLetter_def)
  have h: "scopeActors cfgHeroes exWorld \<noteq> [] \<and> \<not> createAllLetters cfgHeroes \<and>
    (\<forall>a \<in> set (scopeActors cfgHeroes exWorld). normalizeLetter (actor_name a) = None)"
    using n by (simp add: ex_scope_heroes) (simp add: cfgHeroes_def)
  show ?thesis
    using runAlphabetizer_no_mutation[of cfgBossesOnly "exWorld\<lparr> actors := [exAang, exZuko] \<rparr>" exNewId]
      runAlphabetizer_no_mutation[of cfgHeroes exWorld exNewId]
      ex_scope_heroes ex_scope_bosses_only n h
    by blast
qed

section \<open>Names of the folder options\<close>

lemma decimal_digits: "c \<in> set (decimal n) \<Longrightarrow> 48 \<le> c \<and> c \<le> 57"
proof (induction n arbitrary: c rule: decimal.induct)
  case (1 n)
  show ?case
  proof (cases "n < 10")
    case True
    with "1.prems" show ?thesis by (simp add: decimal.simps[of n])
  next
    case False
    have "n mod 10 < 10" by simp
    with "1.prems" "1.IH" False show ?thesis
      by (auto simp: decimal.simps[of n])
  qed
qed

lemma no_bracket_in_decimal: "93 \<notin> set (decimal n)"
  using decimal_digits[of 93 n] by auto

lemma countsByCrumb_foldl:
  "foldl (\<lambda>m r. m(raw_crumb r \<mapsto> (case m (raw_crumb r) of None \<Rightarrow> 0 | Some c \<Rightarrow> c) + 1)) m0 raw c =
     (if filter (\<lambda>r. raw_crumb r = c) raw = [] then m0 c
      else Some ((case m0 c of None \<Rightarrow> 0 | Some k \<Rightarrow> k) + length (filter (\<lambda>r. raw_crumb r = c) raw)))"
  by (induction raw arbitrary: m0) auto

lemma countsByCrumb_count:
  "countsByCrumb raw c =
     (if filter (\<lambda>r. raw_crumb r = c) raw = [] then None
      else Some (length (filter (\<lambda>r. raw_crumb r = c) raw)))"
  unfolding countsByCrumb_def by (subst countsByCrumb_foldl) simp

lemma two_in_filter:
  assumes "i < length xs" "j < length xs" "i \<noteq> j" "P (xs ! i)" "P (xs ! j)"
  shows "1 < length (filter P xs)"
proof -
  have "\<And>i j. i < j \<Longrightarrow> j < length xs \<Longrightarrow> P (xs ! i) \<Longrightarrow> P (xs ! j) \<Longrightarrow> 1 < length (filter P xs)"
  proof -
    fix i j assume ij: "i < j" "j < length xs" and p: "P (xs ! i)" "P (xs ! j)"
    have xs: "xs = take j xs @ xs ! j # drop (Suc j) xs"
      using ij by (simp add: id_take_nth_drop)
    have "xs ! i \<in> set (take j xs)"
      using ij by (metis in_set_conv_nth length_take min.absorb2 nth_take order.strict_implies_order)
    with p have "filter P (take j xs) \<noteq> []"
      by (auto simp: filter_empty_conv)
    then have "0 < length (filter P (take j xs))" by simp
    moreover have "length (filter P xs) =
        length (filter P (take j xs)) + length (filter P (xs ! j # drop (Suc j) xs))"
      by (subst xs) simp
    ultimately show "1 < length (filter P xs)" using p by simp
  qed
  from this[of i j] this[of j i] assms show ?thesis
    by (cases "i < j") auto
qed

lemma first_mark_split:
  assumes "a \<notin> set xs" and "a \<notin> set xs'" and "xs @ a # ys = xs' @ a # ys'"
  shows "xs = xs' \<and> ys = ys'"
  using assms
proof (induction xs arbitrary: xs')
  case Nil
  then show ?case by (cases xs') auto
next
  case (Cons x xs)
  then show ?case by (cases xs') auto
qed

lemma last_mark_split:
  assumes "xs @ a # ys = xs' @ a # ys'" and "a \<notin> set ys" and "a \<notin> set ys'"
  shows "xs = xs' \<and> ys = ys'"
proof -
  from assms(1) have "rev (xs @ a # ys) = rev (xs' @ a # ys')" by simp
  then have "rev ys @ a # rev xs = rev ys' @ a # rev xs'" by simp
  moreover have "a \<notin> set (rev ys)" "a \<notin> set (rev ys')" using assms by auto
  ultimately have "rev ys = rev ys' \<and> rev xs = rev xs'"
    by (intro first_mark_split[of a])
  then show ?thesis by simp
qed

lemma set_sortOptions: "set (sortOptions cmp xs) = set xs"
proof -
  have ins: "\<And>x ys. set (insertOption cmp x ys) = insert x (set ys)"
  proof -
    fix x ys show "set (insertOption cmp x ys) = insert x (set ys)"
      by (induction ys) auto
  qed
  show ?thesis unfolding sortOptions_def
    by (induction xs) (auto simp: ins)
qed

text \<open>
  C8 (as amended). When two different entries of the catalog have the same breadcrumb, the
  name of each is the breadcrumb, then a suffix in brackets that holds the last four code
  units of the entry's own id, then the counts; both options are in the sorted list; and
  the two names differ whenever the two four-unit fragments differ.
\<close>

theorem folderOption_suffix:
  assumes "i < length raw" and "j < length raw" and "i \<noteq> j"
    and "raw_crumb (raw ! i) = raw_crumb (raw ! j)"
  shows "folderOption (countsByCrumb raw) (raw ! i) =
           (raw_id (raw ! i), labelOf (raw ! i) ([32, 91] @ shortId (Some (raw_id (raw ! i))) @ [93])) \<and>
         folderOption (countsByCrumb raw) (raw ! j) =
           (raw_id (raw ! j), labelOf (raw ! j) ([32, 91] @ shortId (Some (raw_id (raw ! j))) @ [93])) \<and>
         shortId (Some (raw_id (raw ! i))) = drop (length (raw_id (raw ! i)) - 4) (raw_id (raw ! i)) \<and>
         shortId (Some (raw_id (raw ! j))) = drop (length (raw_id (raw ! j)) - 4) (raw_id (raw ! j)) \<and>
         folderOption (countsByCrumb raw) (raw ! i) \<in> set (folderOptions cmp raw) \<and>
         folderOption (countsByCrumb raw) (raw ! j) \<in> set (folderOptions cmp raw) \<and>
         (shortId (Some (raw_id (raw ! i))) \<noteq> shortId (Some (raw_id (raw ! j))) \<longrightarrow>
            snd (folderOption (countsByCrumb raw) (raw ! i)) \<noteq>
            snd (folderOption (countsByCrumb raw) (raw ! j)))"
proof -
  let ?c = "raw_crumb (raw ! i)"
  have "1 < length (filter (\<lambda>r. raw_crumb r = ?c) raw)"
    using assms by (intro two_in_filter[of i raw j]) auto
  then have dup: "countsByCrumb raw ?c = Some (length (filter (\<lambda>r. raw_crumb r = ?c) raw))"
    and big: "1 < length (filter (\<lambda>r. raw_crumb r = ?c) raw)"
    by (auto simp: countsByCrumb_count)
  have oi: "folderOption (countsByCrumb raw) (raw ! i) =
      (raw_id (raw ! i), labelOf (raw ! i) ([32, 91] @ shortId (Some (raw_id (raw ! i))) @ [93]))"
    using dup big by (simp add: folderOption_def labelOf_def)
  have oj: "folderOption (countsByCrumb raw) (raw ! j) =
      (raw_id (raw ! j), labelOf (raw ! j) ([32, 91] @ shortId (Some (raw_id (raw ! j))) @ [93]))"
    using dup big assms(4) by (simp add: folderOption_def labelOf_def)
  have mem: "\<And>k. k < length raw \<Longrightarrow>
      folderOption (countsByCrumb raw) (raw ! k) \<in> set (folderOptions cmp raw)"
    by (simp add: folderOptions_def set_sortOptions)
  have neq: "snd (folderOption (countsByCrumb raw) (raw ! i)) \<noteq>
             snd (folderOption (countsByCrumb raw) (raw ! j))"
    if d: "shortId (Some (raw_id (raw ! i))) \<noteq> shortId (Some (raw_id (raw ! j)))"
  proof
    let ?ti = "[32, 40] @ decimal (raw_direct (raw ! i)) @ [47] @
        decimal (raw_withSubfolders (raw ! i)) @ [41]"
    let ?tj = "[32, 40] @ decimal (raw_direct (raw ! j)) @ [47] @
        decimal (raw_withSubfolders (raw ! j)) @ [41]"
    assume "snd (folderOption (countsByCrumb raw) (raw ! i)) =
            snd (folderOption (countsByCrumb raw) (raw ! j))"
    then have eq: "(?c @ [32, 91] @ shortId (Some (raw_id (raw ! i)))) @ 93 # ?ti =
               (?c @ [32, 91] @ shortId (Some (raw_id (raw ! j)))) @ 93 # ?tj"
      using assms(4) by (simp add: oi oj labelOf_def)
    have ni: "93 \<notin> set ?ti" and nj: "93 \<notin> set ?tj"
      by (simp_all add: no_bracket_in_decimal)
    from last_mark_split[OF eq ni nj]
    have "?c @ [32, 91] @ shortId (Some (raw_id (raw ! i))) =
          ?c @ [32, 91] @ shortId (Some (raw_id (raw ! j)))"
      by (rule conjunct1)
    then have "shortId (Some (raw_id (raw ! i))) = shortId (Some (raw_id (raw ! j)))"
      by (simp only: same_append_eq)
    with d show False by (rule notE)
  qed
  have sid: "\<And>x. shortId (Some x) = drop (length x - 4) x"
    by (simp add: shortId_def)
  from oi oj sid[of "raw_id (raw ! i)"] sid[of "raw_id (raw ! j)"]
    mem[OF assms(1)] mem[OF assms(2)] neq
  show ?thesis by blast
qed

lemma ex_twin_raw:
  "buildDescendantsMemo 1 [exTwinA, exTwinB] = Some m \<Longrightarrow>
   rawEntries [exTwinA, exTwinB] [] m = [exRaw exTwinA, exRaw exTwinB]"
  by (simp add: rawEntries_def exRaw_def countActorsForFolder_def folderBreadcrumb_def
      exTwinA_def exTwinB_def)

lemma ex_twin_memo: "\<exists>m. buildDescendantsMemo 1 [exTwinA, exTwinB] = Some m"
  by (simp add: buildDescendantsMemo_def buildFolderChildrenMap_def addChild_def
      folder_parent_id_def exTwinA_def exTwinB_def js_def)

lemma ex_twin_options:
  "folderOptions exCompare [exRaw exTwinA, exRaw exTwinB] =
     [(js ''aaaa1234'', js ''Bosses [1234] (0/0)''), (js ''bbbb1234'', js ''Bosses [1234] (0/0)'')]"
  by (simp add: folderOptions_def sortOptions_def folderOption_def countsByCrumb_def exRaw_def
      exTwinA_def exTwinB_def shortId_def decimal.simps exCompare_def js_def)

text \<open>
  Two folders \<open>Bosses\<close> at the root whose ids both end in \<open>1234\<close>, in a world without
  actors: the dialog offers two options with the same name.
\<close>

theorem folderOption_labels_counterexample:
  "exTwinA \<noteq> exTwinB \<and> folderBreadcrumb exTwinA = folderBreadcrumb exTwinB \<and>
   dialogOptions 1 exCompare \<lparr> folders = [exTwinA, exTwinB], actors = [] \<rparr> =
     Some [(js ''root'', js ''Root (all Actors) (0)''),
           (js ''aaaa1234'', js ''Bosses [1234] (0/0)''),
           (js ''bbbb1234'', js ''Bosses [1234] (0/0)'')]"
proof -
  obtain m where m: "buildDescendantsMemo 1 [exTwinA, exTwinB] = Some m"
    using ex_twin_memo by blast
  have t: "folder_type exTwinA = Actor_type" "folder_type exTwinB = Actor_type"
    by (simp_all add: exTwinA_def exTwinB_def)
  have "dialogOptions 1 exCompare \<lparr> folders = [exTwinA, exTwinB], actors = [] \<rparr> =
     Some ((js ''root'', js ''Root (all Actors) (0)'') #
       folderOptions exCompare [exRaw exTwinA, exRaw exTwinB])"
    using m ex_twin_raw[OF m] by (simp add: dialogOptions_def t) (simp add: js_def decimal.simps)
  moreover have "exTwinA \<noteq> exTwinB"
    by (simp add: exTwinA_def exTwinB_def js_def)
  moreover have "folderBreadcrumb exTwinA = folderBreadcrumb exTwinB"
    by (simp add: folderBreadcrumb_def exTwinA_def exTwinB_def)
  ultimately show ?thesis
    by (simp only: ex_twin_options) simp
qed

theorem folderOption_suffix_witness:
  "(0::nat) < length [exRaw exTwinA, exRaw exTwinC] \<and> (1::nat) < length [exRaw exTwinA, exRaw exTwinC] \<and>
   raw_crumb ([exRaw exTwinA, exRaw exTwinC] ! 0) = raw_crumb ([exRaw exTwinA, exRaw exTwinC] ! 1) \<and>
   folderOption (countsByCrumb [exRaw exTwinA, exRaw exTwinC]) (exRaw exTwinA) =
     (js ''aaaa1234'', js ''Bosses [1234] (0/0)'') \<and>
   folderOption (countsByCrumb [exRaw exTwinA, exRaw exTwinC]) (exRaw exTwinC) =
     (js ''cccc5678'', js ''Bosses [5678] (0/0)'') \<and>
   snd (folderOption (countsByCrumb [exRaw exTwinA, exRaw exTwinC]) (exRaw exTwinA)) \<noteq>
   snd (folderOption (countsByCrumb [exRaw exTwinA, exRaw exTwinC]) (exRaw exTwinC))"
proof -
  let ?raw = "[exRaw exTwinA, exRaw exTwinC]"
  have h: "(0::nat) < length ?raw" "(1::nat) < length ?raw" "(0::nat) \<noteq> 1"
    "raw_crumb (?raw ! 0) = raw_crumb (?raw ! 1)"
    by (simp_all add: exRaw_def)
  note T = folderOption_suffix[OF h, of exCompare, unfolded One_nat_def nth_Cons_Suc nth_Cons_0]
  have s: "shortId (Some (js ''aaaa1234'')) = js ''1234''"
    "shortId (Some (js ''cccc5678'')) = js ''5678''"
    by (simp_all add: shortId_def js_def)
  have l: "labelOf (exRaw exTwinA) ([32, 91] @ js ''1234'' @ [93]) = js ''Bosses [1234] (0/0)''"
    "labelOf (exRaw exTwinC) ([32, 91] @ js ''5678'' @ [93]) = js ''Bosses [5678] (0/0)''"
    by (simp_all add: labelOf_def exRaw_def decimal.simps js_def)
  have i: "raw_id (exRaw exTwinA) = js ''aaaa1234''" "raw_id (exRaw exTwinC) = js ''cccc5678''"
    by (simp_all add: exRaw_def exTwinA_def exTwinC_def)
  have d: "shortId (Some (raw_id (exRaw exTwinA))) \<noteq> shortId (Some (raw_id (exRaw exTwinC)))"
    by (simp only: i s) (simp add: js_def)
  have a: "folderOption (countsByCrumb ?raw) (exRaw exTwinA) =
      (js ''aaaa1234'', js ''Bosses [1234] (0/0)'')"
    using T[THEN conjunct1] by (simp only: s l i)
  have c: "folderOption (countsByCrumb ?raw) (exRaw exTwinC) =
      (js ''cccc5678'', js ''Bosses [5678] (0/0)'')"
    using T[THEN conjunct2, THEN conjunct1] by (simp only: s l i)
  have n: "snd (folderOption (countsByCrumb ?raw) (exRaw exTwinA)) \<noteq>
      snd (folderOption (countsByCrumb ?raw) (exRaw exTwinC))"
    using T d by blast
  from h(1,2,4) a c n show ?thesis
    by blast
qed

section \<open>The descendant index of a forest\<close>

lemma foldl_addChild:
  "foldl addChild m fs pid =
     (if filter (\<lambda>f. folder_parent_id f = pid) fs = [] then m pid
      else Some ((case m pid of None \<Rightarrow> [] | Some xs \<Rightarrow> xs) @ filter (\<lambda>f. folder_parent_id f = pid) fs))"
  by (induction fs arbitrary: m) (auto simp: addChild_def Let_def)

lemma children_lookup:
  "(case buildFolderChildrenMap fs (Some x) of None \<Rightarrow> [] | Some kids \<Rightarrow> kids) = directChildren fs x"
  unfolding buildFolderChildrenMap_def directChildren_def
  by (subst foldl_addChild) simp

lemma descendantIds_unfold:
  "descendantIds fs x = insert x (\<Union>k \<in> set (directChildren fs x). descendantIds fs (folder_id k))"
proof (rule set_eqI)
  fix y
  have step: "\<And>z. (z, x) \<in> childRel fs \<longleftrightarrow> (\<exists>k \<in> set (directChildren fs x). folder_id k = z)"
    by (auto simp: childRel_def directChildren_def)
  have "(y, x) \<in> (childRel fs)\<^sup>* \<longleftrightarrow> y = x \<or> (\<exists>z. (y, z) \<in> (childRel fs)\<^sup>* \<and> (z, x) \<in> childRel fs)"
    by (metis rtrancl.cases rtrancl.rtrancl_into_rtrancl rtrancl.rtrancl_refl)
  then show "y \<in> descendantIds fs x \<longleftrightarrow>
      y \<in> insert x (\<Union>k \<in> set (directChildren fs x). descendantIds fs (folder_id k))"
    unfolding descendantIds_def by (auto simp: step)
qed

lemma dfsKids_exact:
  assumes "\<And>k. k \<in> set kids \<Longrightarrow> dfsGood fs rec (folder_id k)" and "exactIndex fs m"
  shows "\<exists>m'. dfsKids rec m kids s = Some (m', s \<union> (\<Union>k \<in> set kids. descendantIds fs (folder_id k))) \<and>
     exactIndex fs m' \<and> dom m \<subseteq> dom m' \<and> folder_id ` set kids \<subseteq> dom m'"
  using assms
proof (induction kids arbitrary: m s)
  case Nil
  then show ?case by simp
next
  case (Cons k kids)
  have "dfsGood fs rec (folder_id k)" using Cons.prems(1) by simp
  with Cons.prems(2) obtain m1 where
    r: "rec m (folder_id k) = Some (m1, descendantIds fs (folder_id k))" and
    e1: "exactIndex fs m1" and d1: "dom m \<subseteq> dom m1" and k1: "folder_id k \<in> dom m1"
    unfolding dfsGood_def by blast
  have "\<And>k'. k' \<in> set kids \<Longrightarrow> dfsGood fs rec (folder_id k')"
    using Cons.prems(1) by simp
  from Cons.IH[OF this e1, of "s \<union> descendantIds fs (folder_id k)"] obtain m' where
    rest: "dfsKids rec m1 kids (s \<union> descendantIds fs (folder_id k)) =
       Some (m', s \<union> descendantIds fs (folder_id k) \<union> (\<Union>k \<in> set kids. descendantIds fs (folder_id k)))"
    and e': "exactIndex fs m'" and d': "dom m1 \<subseteq> dom m'" and k': "folder_id ` set kids \<subseteq> dom m'"
    by blast
  have "dfsKids rec m (k # kids) s =
      Some (m', s \<union> (\<Union>k \<in> set (k # kids). descendantIds fs (folder_id k)))"
    using r rest by (simp add: Un_assoc)
  moreover have "dom m \<subseteq> dom m'" using d1 d' by blast
  moreover have "folder_id ` set (k # kids) \<subseteq> dom m'" using k1 d' k' by auto
  ultimately show ?case using e' by blast
qed

lemma dfs_step_exact:
  assumes kids: "\<And>k. k \<in> set (directChildren fs x) \<Longrightarrow>
      dfsGood fs (dfs n (buildFolderChildrenMap fs)) (folder_id k)"
  shows "dfsGood fs (dfs (Suc n) (buildFolderChildrenMap fs)) x"
  unfolding dfsGood_def
proof (intro allI impI)
  fix m assume e: "exactIndex fs m"
  show "\<exists>m'. dfs (Suc n) (buildFolderChildrenMap fs) m x = Some (m', descendantIds fs x) \<and>
      exactIndex fs m' \<and> dom m \<subseteq> dom m' \<and> x \<in> dom m'"
  proof (cases "m x")
    case (Some S)
    with e have "S = descendantIds fs x" by (simp add: exactIndex_def)
    with Some e show ?thesis by auto
  next
    case None
    from dfsKids_exact[OF kids e, of "directChildren fs x" "{x}"] obtain m1 where
      k: "dfsKids (dfs n (buildFolderChildrenMap fs)) m (directChildren fs x) {x} =
        Some (m1, {x} \<union> (\<Union>k \<in> set (directChildren fs x). descendantIds fs (folder_id k)))"
      and e1: "exactIndex fs m1" and d1: "dom m \<subseteq> dom m1"
      by blast
    have s: "insert x (\<Union>k \<in> set (directChildren fs x). descendantIds fs (folder_id k)) =
        descendantIds fs x"
      using descendantIds_unfold[of fs x] by simp
    have "dfs (Suc n) (buildFolderChildrenMap fs) m x =
        Some (m1(x \<mapsto> descendantIds fs x), descendantIds fs x)"
      using None k by (simp add: children_lookup s)
    moreover have "exactIndex fs (m1(x \<mapsto> descendantIds fs x))"
      using e1 by (simp add: exactIndex_def)
    moreover have "dom m \<subseteq> dom (m1(x \<mapsto> descendantIds fs x))" using d1 by auto
    ultimately show ?thesis by auto
  qed
qed

lemma parentChain_smaller: "p \<in> set (parentChain f) \<Longrightarrow> size p < size f"
  by (induction f rule: parentChain.induct) auto

lemma parentChain_distinct: "distinct (f # parentChain f)"
proof (induction f rule: parentChain.induct)
  case (1 i n t)
  then show ?case by simp
next
  case (2 i n t p)
  have "Folder i n t (Some p) \<notin> set (parentChain (Folder i n t (Some p)))"
  proof
    assume "Folder i n t (Some p) \<in> set (parentChain (Folder i n t (Some p)))"
    then have "size (Folder i n t (Some p)) < size (Folder i n t (Some p))"
      by (rule parentChain_smaller)
    then show False by (simp only: less_irrefl)
  qed
  with 2 show ?case by simp
qed

lemma parentChain_in_forest:
  "forest fs \<Longrightarrow> f \<in> set fs \<Longrightarrow> set (parentChain f) \<subseteq> set fs"
proof (induction f rule: parentChain.induct)
  case (1 i n t)
  then show ?case by simp
next
  case (2 i n t p)
  from "2.prems" have "p \<in> set fs"
    by (fastforce simp: forest_def)
  with 2 show ?case by simp
qed

lemma depth_in_forest:
  assumes "forest fs" and "f \<in> set fs"
  shows "length (parentChain f) < length fs"
proof -
  have "set (f # parentChain f) \<subseteq> set fs"
    using parentChain_in_forest[OF assms] assms(2) by simp
  then have "card (set (f # parentChain f)) \<le> card (set fs)"
    by (intro card_mono) auto
  moreover have "card (set (f # parentChain f)) = length (f # parentChain f)"
    using parentChain_distinct[of f] by (rule distinct_card)
  moreover have "card (set fs) \<le> length fs" by (rule card_length)
  ultimately show ?thesis by simp
qed

lemma child_in_forest:
  assumes "forest fs" and "g \<in> set fs" and "k \<in> set (directChildren fs (folder_id g))"
  shows "k \<in> set fs \<and> parentChain k = g # parentChain g"
proof -
  from assms(3) have kin: "k \<in> set fs" and par: "folder_parent_id k = Some (folder_id g)"
    by (auto simp: directChildren_def)
  from par obtain p where p: "folder_folder k = Some p" and pid: "folder_id p = folder_id g"
    by (auto simp: folder_parent_id_def)
  from assms(1) kin p have "p \<in> set fs"
    by (fastforce simp: forest_def)
  with assms(1,2) pid have "p = g"
    by (auto simp: forest_def distinct_map inj_on_def)
  with p have "parentChain k = g # parentChain g"
    by (cases k) auto
  with kin show ?thesis by simp
qed

lemma dfs_exact_in_forest:
  assumes "forest fs"
  shows "g \<in> set fs \<Longrightarrow> length fs \<le> n + length (parentChain g) \<Longrightarrow>
     dfsGood fs (dfs n (buildFolderChildrenMap fs)) (folder_id g)"
proof (induction n arbitrary: g)
  case 0
  with depth_in_forest[OF assms, of g] show ?case by simp
next
  case (Suc n)
  show ?case
  proof (rule dfs_step_exact)
    fix k assume k: "k \<in> set (directChildren fs (folder_id g))"
    from child_in_forest[OF assms Suc.prems(1) k]
    have "k \<in> set fs" and "parentChain k = g # parentChain g" by auto
    with Suc.prems(2) show "dfsGood fs (dfs n (buildFolderChildrenMap fs)) (folder_id k)"
      by (intro Suc.IH) auto
  qed
qed

lemma dfsAll_exact:
  assumes "\<And>f. f \<in> set gs \<Longrightarrow> dfsGood fs (dfs n ch) (folder_id f)" and "exactIndex fs m"
  shows "\<exists>m'. dfsAll n ch m gs = Some m' \<and> exactIndex fs m' \<and> dom m \<subseteq> dom m' \<and>
     folder_id ` set gs \<subseteq> dom m'"
  using assms
proof (induction gs arbitrary: m)
  case Nil
  then show ?case by simp
next
  case (Cons f gs)
  have "dfsGood fs (dfs n ch) (folder_id f)" using Cons.prems(1) by simp
  with Cons.prems(2) obtain m1 where
    r: "dfs n ch m (folder_id f) = Some (m1, descendantIds fs (folder_id f))" and
    e1: "exactIndex fs m1" and d1: "dom m \<subseteq> dom m1" and k1: "folder_id f \<in> dom m1"
    unfolding dfsGood_def by blast
  have "\<And>f'. f' \<in> set gs \<Longrightarrow> dfsGood fs (dfs n ch) (folder_id f')"
    using Cons.prems(1) by simp
  from Cons.IH[OF this e1] obtain m' where
    rest: "dfsAll n ch m1 gs = Some m'" and e': "exactIndex fs m'" and d': "dom m1 \<subseteq> dom m'"
    and k': "folder_id ` set gs \<subseteq> dom m'"
    by blast
  have "dfsAll n ch m (f # gs) = Some m'" using r rest by simp
  moreover have "dom m \<subseteq> dom m'" using d1 d' by blast
  moreover have "folder_id ` set (f # gs) \<subseteq> dom m'" using k1 d' k' by auto
  ultimately show ?case using e' by blast
qed

lemma buildDescendantsMemo_exact:
  assumes "forest fs" and "length fs \<le> n"
  shows "\<exists>m. buildDescendantsMemo n fs = Some m \<and>
     (\<forall>f \<in> set fs. m (folder_id f) = Some (descendantIds fs (folder_id f)))"
proof -
  have good: "\<And>f. f \<in> set fs \<Longrightarrow> dfsGood fs (dfs n (buildFolderChildrenMap fs)) (folder_id f)"
    using assms(2) by (intro dfs_exact_in_forest[OF assms(1)]) auto
  have "exactIndex fs Map.empty" by (simp add: exactIndex_def)
  from dfsAll_exact[OF good this, of fs] obtain m where
    m: "dfsAll n (buildFolderChildrenMap fs) Map.empty fs = Some m" and e: "exactIndex fs m"
    and d: "folder_id ` set fs \<subseteq> dom m"
    by blast
  have "\<forall>f \<in> set fs. m (folder_id f) = Some (descendantIds fs (folder_id f))"
  proof
    fix f assume "f \<in> set fs"
    with d obtain S where "m (folder_id f) = Some S" by auto
    with e show "m (folder_id f) = Some (descendantIds fs (folder_id f))"
      by (simp add: exactIndex_def)
  qed
  with m show ?thesis by (auto simp: buildDescendantsMemo_def)
qed

text \<open>
  C5. For a forest of folders and a depth bound of at least the number of folders,
  \<open>buildDescendantsMemo\<close> returns an index in which, for every folder of the list, the
  children recorded by \<open>buildFolderChildrenMap\<close> are its direct children, each of them
  has an entry, the set of a folder without children is the singleton of its own id, and
  the set of any folder is its own id together with the sets of its direct children.
\<close>

theorem buildDescendantsMemo_forest:
  assumes "forest fs" and "length fs \<le> depth"
  shows "\<exists>m. buildDescendantsMemo depth fs = Some m \<and>
     (\<forall>f \<in> set fs.
        (case buildFolderChildrenMap fs (Some (folder_id f)) of None \<Rightarrow> [] | Some kids \<Rightarrow> kids)
           = directChildren fs (folder_id f) \<and>
        (\<forall>k \<in> set (directChildren fs (folder_id f)). m (folder_id k) \<noteq> None) \<and>
        (directChildren fs (folder_id f) = [] \<longrightarrow> m (folder_id f) = Some {folder_id f}) \<and>
        m (folder_id f) =
          Some (insert (folder_id f)
                  (\<Union>k \<in> set (directChildren fs (folder_id f)). the (m (folder_id k)))))"
proof -
  from buildDescendantsMemo_exact[OF assms] obtain m where
    m: "buildDescendantsMemo depth fs = Some m" and
    v: "\<And>f. f \<in> set fs \<Longrightarrow> m (folder_id f) = Some (descendantIds fs (folder_id f))"
    by blast
  have "\<forall>f \<in> set fs.
        (case buildFolderChildrenMap fs (Some (folder_id f)) of None \<Rightarrow> [] | Some kids \<Rightarrow> kids)
           = directChildren fs (folder_id f) \<and>
        (\<forall>k \<in> set (directChildren fs (folder_id f)). m (folder_id k) \<noteq> None) \<and>
        (directChildren fs (folder_id f) = [] \<longrightarrow> m (folder_id f) = Some {folder_id f}) \<and>
        m (folder_id f) =
          Some (insert (folder_id f)
                  (\<Union>k \<in> set (directChildren fs (folder_id f)). the (m (folder_id k))))"
  proof
    fix f assume f: "f \<in> set fs"
    have kin: "\<And>k. k \<in> set (directChildren fs (folder_id f)) \<Longrightarrow> k \<in> set fs"
      by (simp add: directChildren_def)
    have kv: "\<And>k. k \<in> set (directChildren fs (folder_id f)) \<Longrightarrow>
        m (folder_id k) = Some (descendantIds fs (folder_id k))"
      using kin v by blast
    have u: "(\<Union>k \<in> set (directChildren fs (folder_id f)). the (m (folder_id k))) =
        (\<Union>k \<in> set (directChildren fs (folder_id f)). descendantIds fs (folder_id k))"
      using kv by simp
    have eq: "m (folder_id f) =
          Some (insert (folder_id f)
                  (\<Union>k \<in> set (directChildren fs (folder_id f)). the (m (folder_id k))))"
      unfolding u using v[OF f] descendantIds_unfold[of fs "folder_id f"] by simp
    have leaf: "directChildren fs (folder_id f) = [] \<longrightarrow> m (folder_id f) = Some {folder_id f}"
      using eq by auto
    show "(case buildFolderChildrenMap fs (Some (folder_id f)) of None \<Rightarrow> [] | Some kids \<Rightarrow> kids)
           = directChildren fs (folder_id f) \<and>
        (\<forall>k \<in> set (directChildren fs (folder_id f)). m (folder_id k) \<noteq> None) \<and>
        (directChildren fs (folder_id f) = [] \<longrightarrow> m (folder_id f) = Some {folder_id f}) \<and>
        m (folder_id f) =
          Some (insert (folder_id f)
                  (\<Union>k \<in> set (directChildren fs (folder_id f)). the (m (folder_id k))))"
      using children_lookup[of fs "folder_id f"] kv leaf eq by simp
  qed
  with m show ?thesis by blast
qed

lemma ex_forest: "forest (folders exWorld)"
  by (simp add: forest_def exWorld_def ex_folder_ids ex_folder_neq)

lemma ex_children:
  "directChildren (folders exWorld) (js ''fold0001'') = [exBosses]"
  "directChildren (folders exWorld) (js ''fold0002'') = []"
  "directChildren (folders exWorld) (js ''fold0003'') = []"
  by (simp_all add: directChildren_def exWorld_def ex_folder_ids ex_folder_neq)

text \<open>In the small world: \<open>Villains\<close> with its child \<open>Bosses\<close>, and the two leaves.\<close>

theorem buildDescendantsMemo_forest_witness:
  "forest (folders exWorld) \<and> length (folders exWorld) \<le> 3 \<and>
   (\<exists>m. buildDescendantsMemo 3 (folders exWorld) = Some m \<and>
        m (js ''fold0001'') = Some {js ''fold0001'', js ''fold0002''} \<and>
        m (js ''fold0002'') = Some {js ''fold0002''} \<and>
        m (js ''fold0003'') = Some {js ''fold0003''})"
proof -
  have len: "length (folders exWorld) \<le> 3"
    by (simp add: exWorld_def)
  from buildDescendantsMemo_forest[OF ex_forest len] obtain m where
    m: "buildDescendantsMemo 3 (folders exWorld) = Some m" and
    p: "\<And>f. f \<in> set (folders exWorld) \<Longrightarrow>
        (directChildren (folders exWorld) (folder_id f) = [] \<longrightarrow> m (folder_id f) = Some {folder_id f}) \<and>
        m (folder_id f) =
          Some (insert (folder_id f)
                  (\<Union>k \<in> set (directChildren (folders exWorld) (folder_id f)). the (m (folder_id k))))"
    by blast
  have mem: "exVillains \<in> set (folders exWorld)" "exBosses \<in> set (folders exWorld)"
    "exHeroes \<in> set (folders exWorld)"
    by (simp_all add: exWorld_def)
  have b: "m (js ''fold0002'') = Some {js ''fold0002''}"
    using p[OF mem(2)] by (simp add: ex_folder_ids ex_children)
  have h: "m (js ''fold0003'') = Some {js ''fold0003''}"
    using p[OF mem(3)] by (simp add: ex_folder_ids ex_children)
  have v: "m (js ''fold0001'') = Some {js ''fold0001'', js ''fold0002''}"
    using p[OF mem(1)] b by (simp add: ex_folder_ids ex_children)
  from ex_forest len m v b h show ?thesis by blast
qed

section \<open>Finding and ensuring folders\<close>

lemma find_append_cases:
  "find P (xs @ ys) = (case find P xs of None \<Rightarrow> find P ys | Some x \<Rightarrow> Some x)"
  by (induction xs) auto

lemma isChildFolder_iff:
  "isChildFolder name parentId f \<longleftrightarrow>
     folder_type f = Actor_type \<and> folder_name f = name \<and> folder_parent_id f = parentId"
  by (cases parentId) (auto simp: isChildFolder_def folder_parent_id_def)

lemma getFolder_resolves:
  assumes "p \<in> folder_id ` set fs"
  shows "\<exists>g. getFolder fs (Some p) = Some g \<and> folder_id g = p \<and> g \<in> set fs"
proof -
  from assms have "find (\<lambda>f. folder_id f = p) fs \<noteq> None"
    by (auto simp: find_None_iff)
  then obtain g where g: "find (\<lambda>f. folder_id f = p) fs = Some g" by blast
  then have "folder_id g = p \<and> g \<in> set fs"
    by (auto simp: find_Some_iff)
  with g show ?thesis by (simp add: getFolder_def)
qed

lemma createFolder_fields:
  "folder_id (createFolder newId fs name parentId) = newId fs"
  "folder_name (createFolder newId fs name parentId) = name"
  "folder_type (createFolder newId fs name parentId) = Actor_type"
  by (simp_all add: createFolder_def)

lemma createFolder_parent:
  assumes "resolvable fs parentId"
  shows "folder_parent_id (createFolder newId fs name parentId) = parentId"
proof (cases parentId)
  case None
  then show ?thesis by (simp add: createFolder_def getFolder_def folder_parent_id_def)
next
  case (Some p)
  with assms have "p \<in> folder_id ` set fs" by (simp add: resolvable_def)
  from getFolder_resolves[OF this] Some show ?thesis
    by (auto simp: createFolder_def folder_parent_id_def)
qed

lemma createFolder_isChild:
  "resolvable fs parentId \<Longrightarrow> isChildFolder name parentId (createFolder newId fs name parentId)"
  by (simp add: isChildFolder_iff createFolder_fields createFolder_parent)

lemma ensureFolder_found:
  "findChildFolder fs name parentId = Some e \<Longrightarrow>
     ensureFolder newId fs name parentId = (fs, folder_id e)"
  by (simp add: ensureFolder_def)

lemma ensureFolder_created:
  "findChildFolder fs name parentId = None \<Longrightarrow>
     ensureFolder newId fs name parentId = (fs @ [createFolder newId fs name parentId], newId fs)"
  by (simp add: ensureFolder_def Let_def createFolder_fields)

lemma findChildFolder_append:
  "findChildFolder fs name parentId = Some e \<Longrightarrow> findChildFolder (fs @ ext) name parentId = Some e"
  by (simp add: findChildFolder_def find_append_cases)

lemma slot_append: "slot fs name parentId i \<Longrightarrow> slot (fs @ ext) name parentId i"
  by (auto simp: slot_def findChildFolder_append)

lemma slot_functional: "slot fs name parentId i \<Longrightarrow> slot fs name parentId j \<Longrightarrow> i = j"
  by (auto simp: slot_def)

lemma slot_folder:
  "slot fs name parentId i \<Longrightarrow>
     \<exists>e \<in> set fs. isChildFolder name parentId e \<and> folder_id e = i"
  by (auto simp: slot_def findChildFolder_def find_Some_iff)

lemma slot_resolvable: "slot fs name parentId i \<Longrightarrow> resolvable fs (Some i)"
  by (auto simp: resolvable_def dest!: slot_folder)

lemma resolvable_append: "resolvable fs parentId \<Longrightarrow> resolvable (fs @ ext) parentId"
  by (auto simp: resolvable_def split: option.splits)

lemma ensureFolder_slot:
  assumes "resolvable fs parentId" and "ensureFolder newId fs name parentId = (fs', i)"
  shows "slot fs' name parentId i"
proof (cases "findChildFolder fs name parentId")
  case None
  with assms(2) have fs': "fs' = fs @ [createFolder newId fs name parentId]" and i: "i = newId fs"
    by (simp_all add: ensureFolder_created)
  have "findChildFolder fs' name parentId = Some (createFolder newId fs name parentId)"
    using None createFolder_isChild[OF assms(1)]
    by (simp add: fs' findChildFolder_def find_append_cases)
  then show ?thesis by (simp add: slot_def i createFolder_fields)
next
  case (Some e)
  with assms(2) show ?thesis by (auto simp: ensureFolder_found slot_def)
qed

lemma ensureFolder_reuses:
  "slot fs name parentId i \<Longrightarrow> ensureFolder newId fs name parentId = (fs, i)"
  by (auto simp: slot_def ensureFolder_found)

lemma ensureFolder_extends:
  assumes "ensureFolder newId fs name parentId = (fs', i)"
  shows "\<exists>ext. fs' = fs @ ext"
  using assms by (cases "findChildFolder fs name parentId")
    (auto simp: ensureFolder_found ensureFolder_created)

lemma ensured_extends: "ensured fs fs' \<Longrightarrow> \<exists>ext. fs' = fs @ ext"
proof (induction rule: ensured.induct)
  case ensured_refl
  then show ?case by simp
next
  case (ensured_step fs1 parentId newId name)
  obtain fs2 i where e: "ensureFolder newId fs1 name parentId = (fs2, i)"
    by (cases "ensureFolder newId fs1 name parentId")
  from ensureFolder_extends[OF e] ensured_step.IH e show ?case by auto
qed

lemma ensured_trans: "ensured fs1 fs2 \<Longrightarrow> ensured fs0 fs1 \<Longrightarrow> ensured fs0 fs2"
  by (induction rule: ensured.induct) (auto intro: ensured.intros)

lemma ensured_one:
  "resolvable fs parentId \<Longrightarrow> ensureFolder newId fs name parentId = (fs', i) \<Longrightarrow>
     ensured fs fs'"
  using ensured_step[OF ensured_refl, of fs parentId newId name] by simp

section \<open>The folder-ensure pass\<close>

lemma ensureTypeFolders_spec:
  assumes "resolvable fs parent"
    and "ensureTypeFolders newId parent ts (fs, tm) = (fs', tm')"
  shows "ensured fs fs' \<and>
     (\<forall>t \<in> set ts. \<exists>i. tm' (String_of t) = Some i \<and> slot fs' (String_of t) parent i) \<and>
     (\<forall>k. k \<notin> String_of ` set ts \<longrightarrow> tm' k = tm k)"
  using assms
proof (induction ts arbitrary: fs tm)
  case Nil
  then show ?case by (simp add: ensured_refl)
next
  case (Cons t ts)
  obtain fs1 i where e: "ensureFolder newId fs (String_of t) parent = (fs1, i)"
    by (cases "ensureFolder newId fs (String_of t) parent")
  with Cons.prems(2) have rest:
    "ensureTypeFolders newId parent ts (fs1, tm(String_of t \<mapsto> i)) = (fs', tm')"
    by simp
  from ensureFolder_extends[OF e] obtain ext1 where ext1: "fs1 = fs @ ext1" by blast
  have r1: "resolvable fs1 parent"
    using Cons.prems(1) by (simp add: ext1 resolvable_append)
  have s1: "slot fs1 (String_of t) parent i"
    by (rule ensureFolder_slot[OF Cons.prems(1) e])
  from Cons.IH[OF r1 rest] have
    en: "ensured fs1 fs'" and
    sl: "\<forall>t \<in> set ts. \<exists>i. tm' (String_of t) = Some i \<and> slot fs' (String_of t) parent i" and
    keep: "\<forall>k. k \<notin> String_of ` set ts \<longrightarrow> tm' k = (tm(String_of t \<mapsto> i)) k"
    by blast+
  from ensured_extends[OF en] obtain ext where ext: "fs' = fs1 @ ext" by blast
  have "ensured fs fs'"
    by (rule ensured_trans[OF en ensured_one[OF Cons.prems(1) e]])
  moreover have "\<exists>j. tm' (String_of t) = Some j \<and> slot fs' (String_of t) parent j"
  proof (cases "String_of t \<in> String_of ` set ts")
    case True
    then obtain t' where "t' \<in> set ts" "String_of t' = String_of t" by auto
    with sl show ?thesis by metis
  next
    case False
    with keep have "tm' (String_of t) = Some i" by simp
    moreover have "slot fs' (String_of t) parent i"
      using s1 by (simp add: ext slot_append)
    ultimately show ?thesis by blast
  qed
  moreover have "\<forall>k. k \<notin> String_of ` set (t # ts) \<longrightarrow> tm' k = tm k"
    using keep by auto
  ultimately show ?case using sl by simp
qed

lemma bucketKey_same_type:
  "bucketKey byType s L = bucketKey byType s L' \<Longrightarrow> L = L'"
  by (simp add: bucketKey_def split: if_splits)

lemma ensureLetters_spec:
  assumes "resolvable fs base"
    and "ensureLetters newId byType t base Ls (fs, lm) = (fs', lm')"
  shows "ensured fs fs' \<and>
     (\<forall>L \<in> set Ls. \<exists>i. lm' (bucketKey byType (String_of t) L) = Some i \<and> slot fs' L base i) \<and>
     (\<forall>k. k \<notin> bucketKey byType (String_of t) ` set Ls \<longrightarrow> lm' k = lm k)"
  using assms
proof (induction Ls arbitrary: fs lm)
  case Nil
  then show ?case by (simp add: ensured_refl)
next
  case (Cons L Ls)
  let ?key = "bucketKey byType (String_of t)"
  obtain fs1 i where e: "ensureFolder newId fs L base = (fs1, i)"
    by (cases "ensureFolder newId fs L base")
  with Cons.prems(2) have rest:
    "ensureLetters newId byType t base Ls (fs1, lm(?key L \<mapsto> i)) = (fs', lm')"
    by simp
  from ensureFolder_extends[OF e] obtain ext1 where ext1: "fs1 = fs @ ext1" by blast
  have r1: "resolvable fs1 base"
    using Cons.prems(1) by (simp add: ext1 resolvable_append)
  have s1: "slot fs1 L base i"
    by (rule ensureFolder_slot[OF Cons.prems(1) e])
  from Cons.IH[OF r1 rest] have
    en: "ensured fs1 fs'" and
    sl: "\<forall>L \<in> set Ls. \<exists>i. lm' (?key L) = Some i \<and> slot fs' L base i" and
    keep: "\<forall>k. k \<notin> ?key ` set Ls \<longrightarrow> lm' k = (lm(?key L \<mapsto> i)) k"
    by blast+
  from ensured_extends[OF en] obtain ext where ext: "fs' = fs1 @ ext" by blast
  have "ensured fs fs'"
    by (rule ensured_trans[OF en ensured_one[OF Cons.prems(1) e]])
  moreover have "\<exists>j. lm' (?key L) = Some j \<and> slot fs' L base j"
  proof (cases "?key L \<in> ?key ` set Ls")
    case True
    then obtain L' where "L' \<in> set Ls" "?key L' = ?key L" by auto
    moreover from this have "L' = L" by (auto dest: bucketKey_same_type)
    ultimately show ?thesis using sl by blast
  next
    case False
    with keep have "lm' (?key L) = Some i" by simp
    moreover have "slot fs' L base i"
      using s1 by (simp add: ext slot_append)
    ultimately show ?thesis by blast
  qed
  moreover have "\<forall>k. k \<notin> ?key ` set (L # Ls) \<longrightarrow> lm' k = lm k"
    using keep by auto
  ultimately show ?case using sl by simp
qed

lemma bucketKey_inj:
  assumes "bucketKey byType s L = bucketKey byType s' L'" and "length L = 1" and "length L' = 1"
  shows "L = L' \<and> (byType \<longrightarrow> s = s')"
proof (cases byType)
  case True
  with assms(1) have "(s @ [58, 58]) @ L = (s' @ [58, 58]) @ L'"
    by (simp add: bucketKey_def)
  with assms(2,3) have "s @ [58, 58] = s' @ [58, 58] \<and> L = L'"
    by (intro iffD1[OF append_eq_append_conv]) auto
  then show ?thesis by simp
next
  case False
  with assms(1) show ?thesis by (simp add: bucketKey_def)
qed

lemma ensureLetterFolders_spec:
  assumes "\<forall>L \<in> set letters. length L = 1"
    and "\<forall>t \<in> set ts. resolvable fs (baseParentId cfg tm t)"
    and "ensureLetterFolders newId cfg tm letters ts (fs, lm) = (fs', lm')"
  shows "ensured fs fs' \<and>
     (\<forall>t \<in> set ts. \<forall>L \<in> set letters.
        \<exists>i. lm' (bucketKey (groupByType cfg) (String_of t) L) = Some i \<and>
            slot fs' L (baseParentId cfg tm t) i) \<and>
     (\<forall>k. (\<forall>t \<in> set ts. \<forall>L \<in> set letters. k \<noteq> bucketKey (groupByType cfg) (String_of t) L)
        \<longrightarrow> lm' k = lm k)"
  using assms(2,3)
proof (induction ts arbitrary: fs lm)
  case Nil
  then show ?case by (simp add: ensured_refl)
next
  case (Cons t ts)
  let ?g = "groupByType cfg"
  let ?key = "\<lambda>t L. bucketKey ?g (String_of t) L"
  obtain fs1 lm1 where e:
    "ensureLetters newId ?g t (baseParentId cfg tm t) letters (fs, lm) = (fs1, lm1)"
    by (cases "ensureLetters newId ?g t (baseParentId cfg tm t) letters (fs, lm)")
  with Cons.prems(2) have rest:
    "ensureLetterFolders newId cfg tm letters ts (fs1, lm1) = (fs', lm')"
    by (simp add: baseParentId_def)
  have rt: "resolvable fs (baseParentId cfg tm t)" using Cons.prems(1) by simp
  from ensureLetters_spec[OF rt e] have
    en1: "ensured fs fs1" and
    sl1: "\<forall>L \<in> set letters. \<exists>i. lm1 (?key t L) = Some i \<and> slot fs1 L (baseParentId cfg tm t) i" and
    keep1: "\<forall>k. k \<notin> ?key t ` set letters \<longrightarrow> lm1 k = lm k"
    by blast+
  from ensured_extends[OF en1] obtain ext1 where ext1: "fs1 = fs @ ext1" by blast
  have r1: "\<forall>t \<in> set ts. resolvable fs1 (baseParentId cfg tm t)"
    using Cons.prems(1) by (simp add: ext1 resolvable_append)
  from Cons.IH[OF r1 rest] have
    en: "ensured fs1 fs'" and
    sl: "\<forall>t \<in> set ts. \<forall>L \<in> set letters.
        \<exists>i. lm' (?key t L) = Some i \<and> slot fs' L (baseParentId cfg tm t) i" and
    keep: "\<forall>k. (\<forall>t \<in> set ts. \<forall>L \<in> set letters. k \<noteq> ?key t L) \<longrightarrow> lm' k = lm1 k"
    by blast+
  from ensured_extends[OF en] obtain ext where ext: "fs' = fs1 @ ext" by blast
  have "ensured fs fs'"
    by (rule ensured_trans[OF en en1])
  moreover have "\<forall>L \<in> set letters. \<exists>i. lm' (?key t L) = Some i \<and> slot fs' L (baseParentId cfg tm t) i"
  proof
    fix L assume L: "L \<in> set letters"
    show "\<exists>i. lm' (?key t L) = Some i \<and> slot fs' L (baseParentId cfg tm t) i"
    proof (cases "\<forall>t' \<in> set ts. \<forall>L' \<in> set letters. ?key t L \<noteq> ?key t' L'")
      case True
      with keep have "lm' (?key t L) = lm1 (?key t L)" by blast
      moreover from sl1 L obtain i where "lm1 (?key t L) = Some i" "slot fs1 L (baseParentId cfg tm t) i"
        by blast
      ultimately show ?thesis by (auto simp: ext slot_append)
    next
      case False
      then obtain t' L' where t': "t' \<in> set ts" and L': "L' \<in> set letters"
        and k: "?key t L = ?key t' L'" by blast
      have "length L = 1" "length L' = 1" using assms(1) L L' by auto
      from bucketKey_inj[OF k this] have same: "L = L'" "?g \<longrightarrow> String_of t = String_of t'"
        by auto
      then have "baseParentId cfg tm t = baseParentId cfg tm t'" by (auto simp: baseParentId_def)
      with sl t' L' k same(1) show ?thesis by metis
    qed
  qed
  moreover have "\<forall>k. (\<forall>t' \<in> set (t # ts). \<forall>L \<in> set letters. k \<noteq> ?key t' L) \<longrightarrow> lm' k = lm k"
  proof (intro allI impI)
    fix k assume a: "\<forall>t' \<in> set (t # ts). \<forall>L \<in> set letters. k \<noteq> ?key t' L"
    then have "lm' k = lm1 k" using keep by simp
    moreover have "k \<notin> ?key t ` set letters" using a by auto
    ultimately show "lm' k = lm k" using keep1 by simp
  qed
  ultimately show ?case using sl by simp
qed

lemma ensurePass_spec:
  assumes "resolvable fs parent" and "parent = parentFolderId cfg"
    and "\<forall>L \<in> set letters. length L = 1"
    and "ensurePass newId cfg letters types fs = (fs2, tm, lm)"
  shows "ensured fs fs2 \<and>
     (groupByType cfg \<longrightarrow>
        (\<forall>t \<in> set types. \<exists>i. tm (String_of t) = Some i \<and> slot fs2 (String_of t) parent i)) \<and>
     (\<forall>t \<in> set types. \<forall>L \<in> set letters.
        \<exists>i. lm (bucketKey (groupByType cfg) (String_of t) L) = Some i \<and>
            slot fs2 L (baseParentId cfg tm t) i)"
proof -
  obtain fs1 tm1 where p1:
    "(if groupByType cfg then ensureTypeFolders newId (parentFolderId cfg) types (fs, Map.empty)
      else (fs, Map.empty)) = (fs1, tm1)"
    by (cases "if groupByType cfg
        then ensureTypeFolders newId (parentFolderId cfg) types (fs, Map.empty)
        else (fs, Map.empty)")
  with assms(4) have p2:
    "ensureLetterFolders newId cfg tm1 letters types (fs1, Map.empty) = (fs2, lm)" and tm: "tm = tm1"
    by (auto simp: ensurePass_def split: prod.splits)
  have en1: "ensured fs fs1" and
    sl1: "groupByType cfg \<longrightarrow>
       (\<forall>t \<in> set types. \<exists>i. tm1 (String_of t) = Some i \<and> slot fs1 (String_of t) parent i)"
  proof -
    show "ensured fs fs1"
    proof (cases "groupByType cfg")
      case True
      with p1 assms(2) have "ensureTypeFolders newId parent types (fs, Map.empty) = (fs1, tm1)"
        by simp
      from ensureTypeFolders_spec[OF assms(1) this] show ?thesis by blast
    next
      case False
      with p1 show ?thesis by (simp add: ensured_refl)
    qed
    show "groupByType cfg \<longrightarrow>
       (\<forall>t \<in> set types. \<exists>i. tm1 (String_of t) = Some i \<and> slot fs1 (String_of t) parent i)"
    proof
      assume "groupByType cfg"
      with p1 assms(2) have "ensureTypeFolders newId parent types (fs, Map.empty) = (fs1, tm1)"
        by simp
      from ensureTypeFolders_spec[OF assms(1) this]
      show "\<forall>t \<in> set types. \<exists>i. tm1 (String_of t) = Some i \<and> slot fs1 (String_of t) parent i"
        by blast
    qed
  qed
  from ensured_extends[OF en1] obtain ext1 where ext1: "fs1 = fs @ ext1" by blast
  have res: "\<forall>t \<in> set types. resolvable fs1 (baseParentId cfg tm1 t)"
  proof
    fix t assume t: "t \<in> set types"
    show "resolvable fs1 (baseParentId cfg tm1 t)"
    proof (cases "groupByType cfg")
      case True
      with sl1 t obtain i where "tm1 (String_of t) = Some i" "slot fs1 (String_of t) parent i"
        by blast
      with True show ?thesis by (auto simp: baseParentId_def dest: slot_resolvable)
    next
      case False
      with assms(1,2) show ?thesis by (simp add: baseParentId_def ext1 resolvable_append)
    qed
  qed
  from ensureLetterFolders_spec[OF assms(3) res p2] have
    en2: "ensured fs1 fs2" and
    sl2: "\<forall>t \<in> set types. \<forall>L \<in> set letters.
        \<exists>i. lm (bucketKey (groupByType cfg) (String_of t) L) = Some i \<and>
            slot fs2 L (baseParentId cfg tm1 t) i"
    by blast+
  from ensured_extends[OF en2] obtain ext2 where ext2: "fs2 = fs1 @ ext2" by blast
  have "ensured fs fs2" by (rule ensured_trans[OF en2 en1])
  moreover have "groupByType cfg \<longrightarrow>
        (\<forall>t \<in> set types. \<exists>i. tm (String_of t) = Some i \<and> slot fs2 (String_of t) parent i)"
    using sl1 by (auto simp: tm ext2 intro: slot_append)
  ultimately show ?thesis using sl2 by (simp add: tm)
qed

lemma ensureFolder_any:
  assumes "ensureFolder newId fs name parentId = (fs', i)"
  shows "i \<in> folder_id ` set fs' \<and> set fs \<subseteq> set fs' \<and>
     (\<forall>f \<in> set fs'. f \<in> set fs \<or> f = createFolder newId fs name parentId)"
proof (cases "findChildFolder fs name parentId")
  case None
  with assms show ?thesis by (auto simp: ensureFolder_created createFolder_fields)
next
  case (Some e)
  then have "e \<in> set fs" by (auto simp: findChildFolder_def find_Some_iff)
  with Some assms show ?thesis by (auto simp: ensureFolder_found)
qed

lemma planIn_step:
  assumes "\<And>s n p. P (createFolder newId s n p)" and "planIn P fs m"
    and "ensureFolder newId fs name parentId = (fs', i)"
  shows "planIn P fs' (m(k \<mapsto> i))" and "planIn P fs' m"
proof -
  from ensureFolder_any[OF assms(3)] have
    i: "i \<in> folder_id ` set fs'" and sub: "set fs \<subseteq> set fs'" and
    new: "\<forall>f \<in> set fs'. f \<in> set fs \<or> f = createFolder newId fs name parentId"
    by blast+
  have allP: "\<forall>f \<in> set fs'. P f"
    using new assms(1,2) unfolding planIn_def by blast
  have im: "folder_id ` set fs \<subseteq> folder_id ` set fs'"
    using sub by (rule image_mono)
  have vals: "\<forall>k d. m k = Some d \<longrightarrow> d \<in> folder_id ` set fs'"
    using im assms(2) unfolding planIn_def by blast
  from allP vals show "planIn P fs' m" by (simp add: planIn_def)
  from allP vals i show "planIn P fs' (m(k \<mapsto> i))" by (simp add: planIn_def)
qed

lemma ensureTypeFolders_plan:
  assumes "\<And>s n p. P (createFolder newId s n p)"
  shows "planIn P fs m \<Longrightarrow> ensureTypeFolders newId parent ts (fs, tm) = (fs', tm') \<Longrightarrow>
     planIn P fs' m"
proof (induction ts arbitrary: fs tm)
  case Nil
  then show ?case by simp
next
  case (Cons t ts)
  obtain fs1 i where e: "ensureFolder newId fs (String_of t) parent = (fs1, i)"
    by (cases "ensureFolder newId fs (String_of t) parent")
  with Cons.prems(2) have rest:
    "ensureTypeFolders newId parent ts (fs1, tm(String_of t \<mapsto> i)) = (fs', tm')"
    by simp
  from planIn_step(2)[OF assms Cons.prems(1) e] Cons.IH rest show ?case by blast
qed

lemma ensureLetters_plan:
  assumes "\<And>s n p. P (createFolder newId s n p)"
  shows "planIn P fs lm \<Longrightarrow> ensureLetters newId byType t base Ls (fs, lm) = (fs', lm') \<Longrightarrow>
     planIn P fs' lm' \<and> dom lm \<union> bucketKey byType (String_of t) ` set Ls \<subseteq> dom lm'"
proof (induction Ls arbitrary: fs lm)
  case Nil
  then show ?case by simp
next
  case (Cons L Ls)
  let ?key = "bucketKey byType (String_of t)"
  obtain fs1 i where e: "ensureFolder newId fs L base = (fs1, i)"
    by (cases "ensureFolder newId fs L base")
  with Cons.prems(2) have rest:
    "ensureLetters newId byType t base Ls (fs1, lm(?key L \<mapsto> i)) = (fs', lm')"
    by simp
  have "planIn P fs1 (lm(?key L \<mapsto> i))"
    by (rule planIn_step(1)[OF assms Cons.prems(1) e])
  from Cons.IH[OF this rest] have p: "planIn P fs' lm'" and
    d: "dom (lm(?key L \<mapsto> i)) \<union> ?key ` set Ls \<subseteq> dom lm'"
    by blast+
  have "dom (lm(?key L \<mapsto> i)) = insert (?key L) (dom lm)" by simp
  with d have "dom lm \<union> ?key ` set (L # Ls) \<subseteq> dom lm'" by auto
  with p show ?case by blast
qed

lemma ensureLetterFolders_plan:
  assumes "\<And>s n p. P (createFolder newId s n p)"
  shows "planIn P fs lm \<Longrightarrow> ensureLetterFolders newId cfg tm letters ts (fs, lm) = (fs', lm') \<Longrightarrow>
     planIn P fs' lm' \<and>
     (\<forall>t \<in> set ts. \<forall>L \<in> set letters. bucketKey (groupByType cfg) (String_of t) L \<in> dom lm') \<and>
     dom lm \<subseteq> dom lm'"
proof (induction ts arbitrary: fs lm)
  case Nil
  then show ?case by simp
next
  case (Cons t ts)
  obtain fs1 lm1 where e:
    "ensureLetters newId (groupByType cfg) t (baseParentId cfg tm t) letters (fs, lm) = (fs1, lm1)"
    by (cases "ensureLetters newId (groupByType cfg) t (baseParentId cfg tm t) letters (fs, lm)")
  with Cons.prems(2) have rest:
    "ensureLetterFolders newId cfg tm letters ts (fs1, lm1) = (fs', lm')"
    by (simp add: baseParentId_def)
  from ensureLetters_plan[of P newId, OF assms Cons.prems(1) e] have
    p1: "planIn P fs1 lm1" and
    d1: "dom lm \<union> bucketKey (groupByType cfg) (String_of t) ` set letters \<subseteq> dom lm1"
    by blast+
  from Cons.IH[OF p1 rest] have p: "planIn P fs' lm'" and
    ks: "\<forall>t \<in> set ts. \<forall>L \<in> set letters. bucketKey (groupByType cfg) (String_of t) L \<in> dom lm'"
    and d2: "dom lm1 \<subseteq> dom lm'"
    by blast+
  have "\<forall>L \<in> set letters. bucketKey (groupByType cfg) (String_of t) L \<in> dom lm'"
    using d1 d2 by blast
  moreover have "dom lm \<subseteq> dom lm'" using d1 d2 by blast
  ultimately show ?case using p ks by simp
qed

lemma ensurePass_plan:
  assumes "\<And>s n p. P (createFolder newId s n p)" and "\<forall>f \<in> set fs. P f"
    and "ensurePass newId cfg letters types fs = (fs2, tm, lm)"
  shows "planIn P fs2 lm \<and>
     (\<forall>t \<in> set types. \<forall>L \<in> set letters. bucketKey (groupByType cfg) (String_of t) L \<in> dom lm)"
proof -
  obtain fs1 tm1 where p1:
    "(if groupByType cfg then ensureTypeFolders newId (parentFolderId cfg) types (fs, Map.empty)
      else (fs, Map.empty)) = (fs1, tm1)"
    by (cases "if groupByType cfg
        then ensureTypeFolders newId (parentFolderId cfg) types (fs, Map.empty)
        else (fs, Map.empty)")
  with assms(3) have p2:
    "ensureLetterFolders newId cfg tm1 letters types (fs1, Map.empty) = (fs2, lm)"
    by (auto simp: ensurePass_def split: prod.splits)
  have start: "planIn P fs Map.empty" using assms(2) by (simp add: planIn_def)
  have "planIn P fs1 Map.empty"
  proof (cases "groupByType cfg")
    case True
    with p1 have "ensureTypeFolders newId (parentFolderId cfg) types (fs, Map.empty) = (fs1, tm1)"
      by simp
    from ensureTypeFolders_plan[of P newId, OF assms(1) start this] show ?thesis .
  next
    case False
    with p1 start show ?thesis by simp
  qed
  from ensureLetterFolders_plan[of P newId, OF assms(1) this p2] show ?thesis by blast
qed

section \<open>Letters and types of the actors in scope\<close>

lemma normalizeLetter_upper:
  assumes "normalizeLetter name = Some L"
  shows "\<exists>c. L = [c] \<and> 65 \<le> c \<and> c \<le> 90"
proof -
  from assms obtain m where
    m: "find isAsciiLetter (case name of None \<Rightarrow> [] | Some n \<Rightarrow> n) = Some m" and L: "L = [toUpperCase m]"
    by (auto simp: normalizeLetter_find)
  from m have "isAsciiLetter m" by (auto simp: find_Some_iff)
  with L toUpperCase_letter[of m] show ?thesis by simp
qed

lemma alphabet_letters: "L \<in> set alphabet \<longleftrightarrow> (\<exists>c. L = [c] \<and> 65 \<le> c \<and> c \<le> 90)"
  unfolding alphabet_def set_map set_upt by auto


lemma map_filter_member:
  "y \<in> set (List.map_filter f xs) \<longleftrightarrow> (\<exists>x \<in> set xs. f x = Some y)"
  by (induction xs) (auto simp: map_filter_simps split: option.splits)

lemma lettersOf_single: "L \<in> set (lettersOf cfg as) \<Longrightarrow> length L = 1"
  by (auto simp: lettersOf_def alphabet_letters map_filter_member
      dest!: normalizeLetter_upper split: if_splits)

lemma lettersOf_member:
  assumes "a \<in> set as" and "normalizeLetter (actor_name a) = Some L"
  shows "L \<in> set (lettersOf cfg as)"
proof (cases "createAllLetters cfg")
  case True
  with normalizeLetter_upper[OF assms(2)] show ?thesis
    by (simp add: lettersOf_def alphabet_letters)
next
  case False
  have "L \<in> set (List.map_filter (\<lambda>a. normalizeLetter (actor_name a)) as)"
    using assms by (auto simp: map_filter_member)
  with False show ?thesis by (simp add: lettersOf_def)
qed

lemma typesOf_member:
  assumes "a \<in> set as"
  shows "\<exists>t \<in> set (typesOf cfg as).
     bucketKey (groupByType cfg) (String_of t) L = bucketKey (groupByType cfg) (actor_type a) L \<and>
     (groupByType cfg \<longrightarrow> t = Some (actor_type a))"
proof (cases "groupByType cfg")
  case True
  with assms have "Some (actor_type a) \<in> set (typesOf cfg as)"
    by (simp add: typesOf_def)
  with True show ?thesis by (auto simp: String_of_def)
next
  case False
  then show ?thesis by (simp add: typesOf_def bucketKey_def)
qed

lemma lettersOf_subset:
  assumes "\<And>b. b \<in> set bs \<Longrightarrow> \<exists>a \<in> set as. actor_name a = actor_name b"
  shows "set (lettersOf cfg bs) \<subseteq> set (lettersOf cfg as)"
proof (cases "createAllLetters cfg")
  case True
  then show ?thesis by (simp add: lettersOf_def)
next
  case False
  have "set (List.map_filter (\<lambda>a. normalizeLetter (actor_name a)) bs)
      \<subseteq> set (List.map_filter (\<lambda>a. normalizeLetter (actor_name a)) as)"
  proof
    fix L assume "L \<in> set (List.map_filter (\<lambda>a. normalizeLetter (actor_name a)) bs)"
    then obtain b where b: "b \<in> set bs" "normalizeLetter (actor_name b) = Some L"
      by (auto simp: map_filter_member)
    from assms[OF b(1)] obtain a where "a \<in> set as" "actor_name a = actor_name b" by blast
    with b(2) have "\<exists>x \<in> set as. normalizeLetter (actor_name x) = Some L"
      by metis
    then show "L \<in> set (List.map_filter (\<lambda>a. normalizeLetter (actor_name a)) as)"
      by (simp add: map_filter_member)
  qed
  with False show ?thesis by (simp add: lettersOf_def)
qed

lemma typesOf_subset:
  assumes "\<And>b. b \<in> set bs \<Longrightarrow> \<exists>a \<in> set as. actor_type a = actor_type b"
  shows "set (typesOf cfg bs) \<subseteq> set (typesOf cfg as)"
proof (cases "groupByType cfg")
  case True
  have "actor_type ` set bs \<subseteq> actor_type ` set as"
  proof
    fix x assume "x \<in> actor_type ` set bs"
    then obtain b where b: "b \<in> set bs" "x = actor_type b" by blast
    from assms[OF b(1)] b(2) show "x \<in> actor_type ` set as" by (metis imageI)
  qed
  with True show ?thesis by (auto simp: typesOf_def)
next
  case False
  then show ?thesis by (simp add: typesOf_def)
qed

section \<open>A run in the small world\<close>

lemma js_eq: "js a = js b \<longleftrightarrow> a = b"
proof -
  have "inj (of_char :: char \<Rightarrow> nat)"
    by (metis (no_types) char_of_char injI)
  then show ?thesis by (simp add: js_def inj_map_eq_map)
qed

lemma ex_scope_root: "scopeActors cfgRoot exWorld = [exAang, exBob, exZuko, exNumbers]"
  by (simp add: scopeActors_def cfgRoot_def exWorld_def actorInScope_def)

lemma ex_letters:
  "normalizeLetter (actor_name exAang) = Some (js ''A'')"
  "normalizeLetter (actor_name exBob) = Some (js ''B'')"
  "normalizeLetter (actor_name exZuko) = Some (js ''Z'')"
  "normalizeLetter (actor_name exNumbers) = None"
  by (simp_all add: exAang_def exBob_def exZuko_def exNumbers_def js_def normalizeLetter_def
      trim_def isWhiteSpace_def isAsciiLetter_def toUpperCase_def)

lemma ex_lettersOf:
  "lettersOf cfgRoot [exAang, exBob, exZuko, exNumbers] = [js ''A'', js ''B'', js ''Z'']"
  by (simp add: lettersOf_def cfgRoot_def map_filter_simps ex_letters) (simp add: js_def)

lemma ex_typesOf: "typesOf cfgRoot [exAang, exBob, exZuko, exNumbers] = [None]"
  by (simp add: typesOf_def cfgRoot_def)

lemma ex_newId:
  "exNewId [exVillains, exBosses, exHeroes] = js ''new3''"
  "exNewId [exVillains, exBosses, exHeroes, exA] = js ''new4''"
  "exNewId [exVillains, exBosses, exHeroes, exA, exB] = js ''new5''"
  by (simp_all add: exNewId_def decimal.simps js_def)

lemma ex_names:
  "folder_name exVillains = js ''Villains''" "folder_name exBosses = js ''Bosses''"
  "folder_name exHeroes = js ''Heroes''" "folder_name exA = js ''A''"
  "folder_name exB = js ''B''" "folder_name exZ = js ''Z''"
  "folder_type exVillains = Actor_type" "folder_type exBosses = Actor_type"
  "folder_type exHeroes = Actor_type" "folder_type exA = Actor_type"
  "folder_type exB = Actor_type" "folder_type exZ = Actor_type"
  "folder_folder exA = None" "folder_folder exB = None" "folder_folder exZ = None"
  "folder_id exA = js ''new3''" "folder_id exB = js ''new4''" "folder_id exZ = js ''new5''"
  by (simp_all add: exVillains_def exBosses_def exHeroes_def exA_def exB_def exZ_def)

lemma ex_ensure:
  "ensureFolder exNewId [exVillains, exBosses, exHeroes] (js ''A'') None
     = ([exVillains, exBosses, exHeroes, exA], js ''new3'')"
  "ensureFolder exNewId [exVillains, exBosses, exHeroes, exA] (js ''B'') None
     = ([exVillains, exBosses, exHeroes, exA, exB], js ''new4'')"
  "ensureFolder exNewId [exVillains, exBosses, exHeroes, exA, exB] (js ''Z'') None
     = ([exVillains, exBosses, exHeroes, exA, exB, exZ], js ''new5'')"
  "ensureFolder exNewId [exVillains, exBosses, exHeroes] (js ''Heroes'') None
     = ([exVillains, exBosses, exHeroes], js ''fold0003'')"
  by (simp_all add: ensureFolder_def findChildFolder_def isChildFolder_def ex_names
      ex_folder_ids js_eq createFolder_def getFolder_def ex_newId)
    (simp_all add: exA_def exB_def exZ_def)

lemma ex_pass:
  "ensurePass exNewId cfgRoot [js ''A'', js ''B'', js ''Z''] [None] [exVillains, exBosses, exHeroes] =
     ([exVillains, exBosses, exHeroes, exA, exB, exZ], Map.empty,
      [js ''::A'' \<mapsto> js ''new3'', js ''::B'' \<mapsto> js ''new4'', js ''::Z'' \<mapsto> js ''new5''])"
proof -
  have k: "bucketKey False (String_of None) (js ''A'') = js ''::A''"
    "bucketKey False (String_of None) (js ''B'') = js ''::B''"
    "bucketKey False (String_of None) (js ''Z'') = js ''::Z''"
    by (simp_all add: bucketKey_def js_def)
  have c: "groupByType cfgRoot = False" "parentFolderId cfgRoot = None"
    by (simp_all add: cfgRoot_def)
  show ?thesis
    by (simp add: ensurePass_def baseParentId_def c ex_ensure k)
qed

lemma ex_keys:
  "bucketKey False t (js ''A'') = js ''::A''"
  "bucketKey False t (js ''B'') = js ''::B''"
  "bucketKey False t (js ''Z'') = js ''::Z''"
  by (simp_all add: bucketKey_def js_def)

lemma ex_actor_ids:
  "actor_id exAang = js ''actr0001''" "actor_id exBob = js ''actr0002''"
  "actor_id exZuko = js ''actr0003''" "actor_id exNumbers = js ''actr0004''"
  by (simp_all add: exAang_def exBob_def exZuko_def exNumbers_def)

lemma ex_moves:
  "moveOf False exPlan exAang = Update (js ''actr0001'') (js ''new3'')"
  "moveOf False exPlan exBob = Update (js ''actr0002'') (js ''new4'')"
  "moveOf False exPlan exZuko = Update (js ''actr0003'') (js ''new5'')"
  "moveOf False exPlan exNumbers = NoLetter"
  by (simp_all add: moveOf_def ex_letters ex_keys exPlan_def js_eq ex_actor_folders ex_actor_ids)
    (simp_all add: js_def)

lemma ex_updates:
  "collectUpdates False exPlan [exAang, exBob, exZuko, exNumbers] =
     [(js ''actr0001'', js ''new3''), (js ''actr0002'', js ''new4''), (js ''actr0003'', js ''new5'')]"
  by (simp add: collectUpdates_def map_filter_simps ex_moves)

lemma ex_get:
  "getFolder [exVillains, exBosses, exHeroes, exA, exB, exZ] (Some (js ''new3'')) = Some exA"
  "getFolder [exVillains, exBosses, exHeroes, exA, exB, exZ] (Some (js ''new4'')) = Some exB"
  "getFolder [exVillains, exBosses, exHeroes, exA, exB, exZ] (Some (js ''new5'')) = Some exZ"
  by (simp_all add: getFolder_def ex_folder_ids ex_names js_eq)

lemma ex_update_documents:
  "updateDocuments [exVillains, exBosses, exHeroes, exA, exB, exZ]
     [(js ''actr0001'', js ''new3''), (js ''actr0002'', js ''new4''), (js ''actr0003'', js ''new5'')]
     [exAang, exBob, exZuko, exNumbers] =
   [exAang\<lparr> actor_folder := Some exA \<rparr>, exBob\<lparr> actor_folder := Some exB \<rparr>,
    exZuko\<lparr> actor_folder := Some exZ \<rparr>, exNumbers]"
  by (simp add: ex_actor_ids js_eq ex_get)

lemma ex_run:
  "runAlphabetizer exNewId cfgRoot exWorld = (exWorld1, InfoMoved 3 False)"
proof -
  have c: "groupByType cfgRoot = False" by (simp add: cfgRoot_def)
  have f: "folders exWorld = [exVillains, exBosses, exHeroes]"
    "actors exWorld = [exAang, exBob, exZuko, exNumbers]" by (simp_all add: exWorld_def)
  show ?thesis
    unfolding runAlphabetizer_def ex_scope_root ex_lettersOf ex_typesOf f ex_pass Let_def c
    by (simp add: ex_updates[unfolded exPlan_def] ex_update_documents
        del: updateDocuments.simps)
      (simp add: exWorld_def exWorld1_def)
qed

lemma ex_wellFormed: "wellFormed exWorld"
  by (simp add: wellFormed_def exWorld_def ex_actor_ids js_eq ex_actor_folders ex_folder_ids)

lemma ex_onlyOnes_fact:
  "findChildFolder (folders exWorld) (js ''Heroes'') None = Some exHeroes"
  "\<not> (\<exists>f \<in> set (folders exWorld). isChildFolder (js ''A'') None f)"
  by (simp_all add: findChildFolder_def isChildFolder_def exWorld_def ex_names ex_folder_ids js_eq)


section \<open>The lookup of the assignment pass\<close>

text \<open>
  C9. For every actor in scope that has a letter, the letter is in the letter list of the
  ensure pass and, when grouping, the actor's type is in the type list; so the lookup of
  the actor's bucket key in \<open>letterFolderIds\<close> finds an id, the id of a folder of the
  collection. When no folder id of the world is the empty string and the host generates no
  empty id, this id is truthy and the loop does not take the branch that skips the actor
  for a missing folder.
\<close>

theorem bucket_lookup_succeeds:
  assumes "a \<in> set (scopeActors cfg w)"
    and "normalizeLetter (actor_name a) = Some L"
    and "ensurePass newId cfg (lettersOf cfg (scopeActors cfg w)) (typesOf cfg (scopeActors cfg w))
           (folders w) = (fs, typeFolderIds, letterFolderIds)"
  shows "L \<in> set (lettersOf cfg (scopeActors cfg w)) \<and>
     (groupByType cfg \<longrightarrow> Some (actor_type a) \<in> set (typesOf cfg (scopeActors cfg w))) \<and>
     (\<exists>d. letterFolderIds (bucketKey (groupByType cfg) (actor_type a) L) = Some d \<and>
          d \<in> folder_id ` set fs \<and>
          ((\<forall>f \<in> set (folders w). folder_id f \<noteq> []) \<and> (\<forall>s. newId s \<noteq> []) \<longrightarrow>
             d \<noteq> [] \<and> moveOf (groupByType cfg) letterFolderIds a \<noteq> NoFolder))"
proof -
  let ?as = "scopeActors cfg w"
  let ?k = "bucketKey (groupByType cfg) (actor_type a) L"
  have L: "L \<in> set (lettersOf cfg ?as)"
    by (rule lettersOf_member[OF assms(1,2)])
  from typesOf_member[OF assms(1), of cfg L] obtain t where
    t: "t \<in> set (typesOf cfg ?as)" and
    k: "bucketKey (groupByType cfg) (String_of t) L = ?k" and
    ty: "groupByType cfg \<longrightarrow> t = Some (actor_type a)"
    by blast
  have "planIn (\<lambda>f. True) fs letterFolderIds \<and>
     (\<forall>t \<in> set (typesOf cfg ?as). \<forall>L \<in> set (lettersOf cfg ?as).
        bucketKey (groupByType cfg) (String_of t) L \<in> dom letterFolderIds)"
    by (rule ensurePass_plan[OF _ _ assms(3)]) simp_all
  with t L k obtain d where d: "letterFolderIds ?k = Some d" and din: "d \<in> folder_id ` set fs"
    by (fastforce simp: planIn_def)
  have "d \<noteq> [] \<and> moveOf (groupByType cfg) letterFolderIds a \<noteq> NoFolder"
    if h: "(\<forall>f \<in> set (folders w). folder_id f \<noteq> []) \<and> (\<forall>s. newId s \<noteq> [])"
  proof -
    have "planIn (\<lambda>f. folder_id f \<noteq> []) fs letterFolderIds \<and>
     (\<forall>t \<in> set (typesOf cfg ?as). \<forall>L \<in> set (lettersOf cfg ?as).
        bucketKey (groupByType cfg) (String_of t) L \<in> dom letterFolderIds)"
      using h by (intro ensurePass_plan[OF _ _ assms(3)]) (simp_all add: createFolder_fields)
    with din have "d \<noteq> []" by (auto simp: planIn_def)
    with d assms(2) show ?thesis by (simp add: moveOf_def)
  qed
  with L t ty d din show ?thesis by auto
qed

text \<open>In the small world, \<open>Aang\<close> is in scope of the root and goes to the folder \<open>A\<close>.\<close>

theorem bucket_lookup_succeeds_witness:
  "exAang \<in> set (scopeActors cfgRoot exWorld) \<and>
   normalizeLetter (actor_name exAang) = Some (js ''A'') \<and>
   ensurePass exNewId cfgRoot (lettersOf cfgRoot (scopeActors cfgRoot exWorld))
     (typesOf cfgRoot (scopeActors cfgRoot exWorld)) (folders exWorld)
     = (folders exWorld1, Map.empty, exPlan) \<and>
   exPlan (bucketKey (groupByType cfgRoot) (actor_type exAang) (js ''A'')) = Some (js ''new3'') \<and>
   moveOf (groupByType cfgRoot) exPlan exAang \<noteq> NoFolder"
proof -
  have a: "exAang \<in> set (scopeActors cfgRoot exWorld)"
    by (simp add: ex_scope_root)
  have l: "normalizeLetter (actor_name exAang) = Some (js ''A'')"
    by (rule ex_letters)
  have p: "ensurePass exNewId cfgRoot (lettersOf cfgRoot (scopeActors cfgRoot exWorld))
     (typesOf cfgRoot (scopeActors cfgRoot exWorld)) (folders exWorld)
     = (folders exWorld1, Map.empty, exPlan)"
    unfolding ex_scope_root ex_lettersOf ex_typesOf
    by (simp add: exWorld_def exWorld1_def ex_pass exPlan_def)
  have ids: "(\<forall>f \<in> set (folders exWorld). folder_id f \<noteq> []) \<and> (\<forall>s. exNewId s \<noteq> [])"
    by (simp add: exWorld_def ex_folder_ids exNewId_def) (simp add: js_def)
  have k: "exPlan (bucketKey (groupByType cfgRoot) (actor_type exAang) (js ''A'')) = Some (js ''new3'')"
    by (simp add: cfgRoot_def ex_keys exPlan_def js_eq)
  from bucket_lookup_succeeds[OF a l p] ids
  have "moveOf (groupByType cfgRoot) exPlan exAang \<noteq> NoFolder" by blast
  with a l p k show ?thesis by blast
qed

section \<open>The second run\<close>

lemma updateDocuments_map:
  "distinct (map fst ups) \<Longrightarrow>
   updateDocuments fs ups as =
     map (\<lambda>a. case map_of ups (actor_id a) of
                 None \<Rightarrow> a
               | Some d \<Rightarrow> a\<lparr> actor_folder := getFolder fs (Some d) \<rparr>) as"
proof (induction ups arbitrary: as)
  case Nil
  then show ?case by simp
next
  case (Cons u ups)
  obtain i d where u: "u = (i, d)" by (cases u)
  from Cons.prems u have di: "distinct (map fst ups)" and ni: "i \<notin> fst ` set ups" by auto
  from ni have none: "map_of ups i = None" by (simp add: map_of_eq_None_iff)
  show ?case
    unfolding u using none by (simp add: Cons.IH[OF di] comp_def) 
qed

lemma moveOf_id: "moveOf byType lm a = Update i d \<Longrightarrow> i = actor_id a"
  by (auto simp: moveOf_def split: option.splits if_splits)

lemma collectUpdates_Cons:
  "collectUpdates byType lm (a # as) =
     (case destOf byType lm a of
        None \<Rightarrow> collectUpdates byType lm as
      | Some d \<Rightarrow> (actor_id a, d) # collectUpdates byType lm as)"
  by (auto simp: collectUpdates_def destOf_def map_filter_simps dest: moveOf_id split: move.splits)

lemma collectUpdates_Nil: "collectUpdates byType lm [] = []"
  by (simp add: collectUpdates_def map_filter_simps)

lemma collectUpdates_ids:
  "fst ` set (collectUpdates byType lm as) \<subseteq> actor_id ` set as"
  by (induction as) (auto simp: collectUpdates_Cons collectUpdates_Nil split: option.splits)

lemma collectUpdates_distinct:
  "distinct (map actor_id as) \<Longrightarrow> distinct (map fst (collectUpdates byType lm as))"
proof (induction as)
  case Nil
  then show ?case by (simp add: collectUpdates_Nil)
next
  case (Cons a as)
  then show ?case
    using collectUpdates_ids[of byType lm as]
    by (auto simp: collectUpdates_Cons split: option.splits)
qed

lemma collectUpdates_lookup:
  "distinct (map actor_id as) \<Longrightarrow> a \<in> set as \<Longrightarrow>
     map_of (collectUpdates byType lm as) (actor_id a) = destOf byType lm a"
proof (induction as)
  case Nil
  then show ?case by simp
next
  case (Cons x as)
  show ?case
  proof (cases "a = x")
    case True
    have "actor_id x \<notin> fst ` set (collectUpdates byType lm as)"
      using Cons.prems(1) collectUpdates_ids[of byType lm as] by auto
    then have "map_of (collectUpdates byType lm as) (actor_id x) = None"
      by (simp add: map_of_eq_None_iff)
    with True show ?thesis
      by (simp add: collectUpdates_Cons split: option.splits)
  next
    case False
    with Cons.prems have a: "a \<in> set as" by simp
    from Cons.prems(1) have "actor_id x \<notin> actor_id ` set as" by simp
    with a have ne: "actor_id a \<noteq> actor_id x" by (metis imageI)
    with Cons show ?thesis
      by (auto simp: collectUpdates_Cons split: option.splits)
  qed
qed

lemma collectUpdates_absent:
  "actor_id a \<notin> actor_id ` set as \<Longrightarrow> map_of (collectUpdates byType lm as) (actor_id a) = None"
  using collectUpdates_ids[of byType lm as] by (auto simp: map_of_eq_None_iff)

lemma updateDocuments_moved:
  assumes "distinct (map actor_id as)"
  shows "updateDocuments fs (collectUpdates byType lm (filter inScope as)) as =
     map (moved fs byType lm inScope) as"
proof -
  let ?ups = "collectUpdates byType lm (filter inScope as)"
  have dist: "distinct (map actor_id (filter inScope as))"
    using assms by (rule distinct_map_filter)
  have "distinct (map fst ?ups)"
    by (rule collectUpdates_distinct[OF dist])
  then have "updateDocuments fs ?ups as =
     map (\<lambda>a. case map_of ?ups (actor_id a) of
                 None \<Rightarrow> a
               | Some d \<Rightarrow> a\<lparr> actor_folder := getFolder fs (Some d) \<rparr>) as"
    by (rule updateDocuments_map)
  also have "\<dots> = map (moved fs byType lm inScope) as"
  proof (rule map_cong[OF refl])
    fix a assume a: "a \<in> set as"
    have "map_of ?ups (actor_id a) = (if inScope a then destOf byType lm a else None)"
    proof (cases "inScope a")
      case True
      with a have "a \<in> set (filter inScope as)" by simp
      from collectUpdates_lookup[OF dist this] True show ?thesis by simp
    next
      case False
      have "actor_id a \<notin> actor_id ` set (filter inScope as)"
      proof
        assume "actor_id a \<in> actor_id ` set (filter inScope as)"
        then obtain b where b: "b \<in> set as" "inScope b" "actor_id b = actor_id a" by auto
        with a assms have "b = a" by (auto simp: distinct_map inj_on_def)
        with b False show False by simp
      qed
      from collectUpdates_absent[OF this] False show ?thesis by simp
    qed
    then show "(case map_of ?ups (actor_id a) of
                 None \<Rightarrow> a
               | Some d \<Rightarrow> a\<lparr> actor_folder := getFolder fs (Some d) \<rparr>) =
        moved fs byType lm inScope a"
      by (simp add: moved_def)
  qed
  finally show ?thesis .
qed

lemma moved_fields:
  "actor_name (moved fs byType lm inScope a) = actor_name a"
  "actor_type (moved fs byType lm inScope a) = actor_type a"
  "actor_id (moved fs byType lm inScope a) = actor_id a"
  by (simp_all add: moved_def split: option.splits)

lemma moved_out_of_scope: "\<not> inScope a \<Longrightarrow> moved fs byType lm inScope a = a"
  by (simp add: moved_def)

lemma moved_settled:
  assumes "\<forall>k d. lm k = Some d \<longrightarrow> d \<in> folder_id ` set fs" and "inScope a"
  shows "destOf byType lm (moved fs byType lm inScope a) = None"
proof (cases "destOf byType lm a")
  case None
  with assms(2) show ?thesis by (simp add: moved_def)
next
  case (Some d)
  then obtain L where L: "normalizeLetter (actor_name a) = Some L"
    and k: "lm (bucketKey byType (actor_type a) L) = Some d" and d: "d \<noteq> []"
    by (auto simp: destOf_def moveOf_def split: option.splits if_splits)
  from k assms(1) have "d \<in> folder_id ` set fs" by blast
  from getFolder_resolves[OF this] obtain g where
    g: "getFolder fs (Some d) = Some g" "folder_id g = d" by blast
  have m: "moved fs byType lm inScope a = a\<lparr> actor_folder := Some g \<rparr>"
    using Some assms(2) g by (simp add: moved_def)
  show ?thesis
    unfolding m using L k d g by (simp add: destOf_def moveOf_def actor_folder_id_def)
qed

lemma collectUpdates_empty:
  "(\<forall>a \<in> set as. destOf byType lm a = None) \<Longrightarrow> collectUpdates byType lm as = []"
  by (induction as) (auto simp: collectUpdates_Cons collectUpdates_Nil)

lemma destOf_agree:
  assumes "\<And>L. normalizeLetter (actor_name a) = Some L \<Longrightarrow>
      lm' (bucketKey byType (actor_type a) L) = lm (bucketKey byType (actor_type a) L)"
  shows "destOf byType lm' a = destOf byType lm a"
  using assms by (auto simp: destOf_def moveOf_def split: option.splits)

lemma ensureTypeFolders_noop:
  "(\<forall>t \<in> set ts. \<exists>i. slot fs (String_of t) parent i) \<Longrightarrow>
     fst (ensureTypeFolders newId parent ts (fs, tm)) = fs"
proof (induction ts arbitrary: tm)
  case Nil
  then show ?case by simp
next
  case (Cons t ts)
  then obtain i where "slot fs (String_of t) parent i" by auto
  then have "ensureFolder newId fs (String_of t) parent = (fs, i)"
    by (rule ensureFolder_reuses)
  with Cons show ?case by simp
qed

lemma ensureLetters_noop:
  "(\<forall>L \<in> set Ls. \<exists>i. slot fs L base i) \<Longrightarrow>
     fst (ensureLetters newId byType t base Ls (fs, lm)) = fs"
proof (induction Ls arbitrary: lm)
  case Nil
  then show ?case by simp
next
  case (Cons L Ls)
  then obtain i where "slot fs L base i" by auto
  then have "ensureFolder newId fs L base = (fs, i)"
    by (rule ensureFolder_reuses)
  with Cons show ?case by simp
qed

lemma ensureLetterFolders_noop:
  "(\<forall>t \<in> set ts. \<forall>L \<in> set letters. \<exists>i. slot fs L (baseParentId cfg tm t) i) \<Longrightarrow>
     fst (ensureLetterFolders newId cfg tm letters ts (fs, lm)) = fs"
proof (induction ts arbitrary: lm)
  case Nil
  then show ?case by simp
next
  case (Cons t ts)
  obtain fs1 lm1 where e:
    "ensureLetters newId (groupByType cfg) t (baseParentId cfg tm t) letters (fs, lm) = (fs1, lm1)"
    by (cases "ensureLetters newId (groupByType cfg) t (baseParentId cfg tm t) letters (fs, lm)")
  have "fst (ensureLetters newId (groupByType cfg) t (baseParentId cfg tm t) letters (fs, lm)) = fs"
    using Cons.prems by (intro ensureLetters_noop) simp
  with e have "fs1 = fs" by simp
  with e Cons show ?case by (simp add: baseParentId_def)
qed

lemma ensurePass_again:
  assumes plan: "planned cfg fs letters types tm lm"
    and res: "resolvable fs (parentFolderId cfg)"
    and sub: "set letters' \<subseteq> set letters" "set types' \<subseteq> set types"
    and single: "\<forall>L \<in> set letters'. length L = 1"
    and again: "ensurePass newId cfg letters' types' fs = (fs', tm', lm')"
  shows "fs' = fs \<and>
     (\<forall>t \<in> set types'. \<forall>L \<in> set letters'.
        lm' (bucketKey (groupByType cfg) (String_of t) L) =
        lm (bucketKey (groupByType cfg) (String_of t) L))"
proof -
  let ?g = "groupByType cfg"
  let ?parent = "parentFolderId cfg"
  obtain fs1 tm1 where p1:
    "(if ?g then ensureTypeFolders newId ?parent types' (fs, Map.empty)
      else (fs, Map.empty)) = (fs1, tm1)"
    by (cases "if ?g then ensureTypeFolders newId ?parent types' (fs, Map.empty)
        else (fs, Map.empty)")
  with again have p2:
    "ensureLetterFolders newId cfg tm1 letters' types' (fs1, Map.empty) = (fs', lm')" and tm': "tm' = tm1"
    by (auto simp: ensurePass_def split: prod.splits)
  have fs1: "fs1 = fs"
  proof (cases ?g)
    case True
    with plan sub(2) have "\<forall>t \<in> set types'. \<exists>i. slot fs (String_of t) ?parent i"
      unfolding planned_def by blast
    from ensureTypeFolders_noop[OF this, of newId Map.empty] p1 True show ?thesis by simp
  next
    case False
    with p1 show ?thesis by simp
  qed
  from ensurePass_spec[OF res refl single again] have
    sl': "?g \<longrightarrow> (\<forall>t \<in> set types'. \<exists>i. tm' (String_of t) = Some i \<and> slot fs' (String_of t) ?parent i)"
    and ll': "\<forall>t \<in> set types'. \<forall>L \<in> set letters'.
        \<exists>i. lm' (bucketKey ?g (String_of t) L) = Some i \<and> slot fs' L (baseParentId cfg tm' t) i"
    and en: "ensured fs fs'"
    by blast+
  from ensured_extends[OF en] obtain ext where ext: "fs' = fs @ ext" by blast
  have base: "\<forall>t \<in> set types'. baseParentId cfg tm' t = baseParentId cfg tm t"
  proof
    fix t assume t: "t \<in> set types'"
    show "baseParentId cfg tm' t = baseParentId cfg tm t"
    proof (cases ?g)
      case True
      with sl' t obtain i' where i': "tm' (String_of t) = Some i'" "slot fs' (String_of t) ?parent i'"
        by blast
      from plan True t sub(2) obtain i where i: "tm (String_of t) = Some i" "slot fs (String_of t) ?parent i"
        unfolding planned_def by blast
      from i(2) have "slot fs' (String_of t) ?parent i" by (simp add: ext slot_append)
      with i'(2) have "i' = i" by (rule slot_functional)
      with i i' True show ?thesis by (simp add: baseParentId_def)
    next
      case False
      then show ?thesis by (simp add: baseParentId_def)
    qed
  qed
  have "\<forall>t \<in> set types'. \<forall>L \<in> set letters'. \<exists>i. slot fs L (baseParentId cfg tm1 t) i"
    using plan sub base unfolding planned_def tm' by (metis subsetD)
  from ensureLetterFolders_noop[OF this, of newId Map.empty] p2 fs1 have same: "fs' = fs" by simp
  have "\<forall>t \<in> set types'. \<forall>L \<in> set letters'.
        lm' (bucketKey ?g (String_of t) L) = lm (bucketKey ?g (String_of t) L)"
  proof (intro ballI)
    fix t L assume t: "t \<in> set types'" and L: "L \<in> set letters'"
    from ll' t L obtain i' where i': "lm' (bucketKey ?g (String_of t) L) = Some i'"
      "slot fs' L (baseParentId cfg tm' t) i'" by blast
    from plan t L sub obtain i where i: "lm (bucketKey ?g (String_of t) L) = Some i"
      "slot fs L (baseParentId cfg tm t) i"
      unfolding planned_def by blast
    from i'(2) base t same have "slot fs L (baseParentId cfg tm t) i'" by simp
    with i(2) have "i = i'" by (rule slot_functional)
    with i i' show "lm' (bucketKey ?g (String_of t) L) = lm (bucketKey ?g (String_of t) L)"
      by simp
  qed
  with same show ?thesis by blast
qed

lemma runAlphabetizer_early:
  "scopeActors cfg w = [] \<or> lettersOf cfg (scopeActors cfg w) = [] \<Longrightarrow>
     fst (runAlphabetizer newId cfg w) = w \<and>
     snd (runAlphabetizer newId cfg w) \<in> {WarnNoActorsInScope, WarnNoUsableLetter}"
  by (auto simp: runAlphabetizer_def Let_def)

lemma runAlphabetizer_late:
  assumes "scopeActors cfg w \<noteq> []" and "lettersOf cfg (scopeActors cfg w) \<noteq> []"
    and "ensurePass newId cfg (lettersOf cfg (scopeActors cfg w))
           (typesOf cfg (scopeActors cfg w)) (folders w) = (fs, tm, lm)"
  shows "fst (runAlphabetizer newId cfg w) =
       w\<lparr> folders := fs,
          actors := updateDocuments fs
            (collectUpdates (groupByType cfg) lm (scopeActors cfg w)) (actors w) \<rparr>"
    and "collectUpdates (groupByType cfg) lm (scopeActors cfg w) = [] \<Longrightarrow>
       snd (runAlphabetizer newId cfg w) = InfoNothingToMove"
  using assms by (auto simp: runAlphabetizer_def Let_def)

lemma runAlphabetizer_twice:
  assumes res: "resolvable (folders w) (parentFolderId cfg)"
    and dist: "distinct (map actor_id (actors w))"
  shows "fst (runAlphabetizer newId' cfg (fst (runAlphabetizer newId cfg w)))
           = fst (runAlphabetizer newId cfg w) \<and>
         snd (runAlphabetizer newId' cfg (fst (runAlphabetizer newId cfg w)))
           \<in> {WarnNoActorsInScope, WarnNoUsableLetter, InfoNothingToMove}"
proof (cases "scopeActors cfg w = [] \<or> lettersOf cfg (scopeActors cfg w) = []")
  case True
  from runAlphabetizer_early[OF True, of newId] runAlphabetizer_early[OF True, of newId']
  show ?thesis by auto
next
  case False
  let ?g = "groupByType cfg"
  let ?P = "\<lambda>a. actorInScope a (parentFolderId cfg) (includeSubfolders cfg)"
  let ?as = "scopeActors cfg w"
  obtain fs tm lm where e:
    "ensurePass newId cfg (lettersOf cfg ?as) (typesOf cfg ?as) (folders w) = (fs, tm, lm)"
    by (cases "ensurePass newId cfg (lettersOf cfg ?as) (typesOf cfg ?as) (folders w)") auto
  let ?w1 = "fst (runAlphabetizer newId cfg w)"
  let ?m = "moved fs ?g lm ?P"
  have scope: "?as = filter ?P (actors w)" by (simp add: scopeActors_def)
  have w1: "?w1 = w\<lparr> folders := fs, actors := map ?m (actors w) \<rparr>"
    using runAlphabetizer_late(1)[OF _ _ e] False
    by (simp add: scope updateDocuments_moved[OF dist])
  have f1: "folders ?w1 = fs" and a1: "actors ?w1 = map ?m (actors w)"
    by (simp_all add: w1)
  have single: "\<forall>L \<in> set (lettersOf cfg ?as). length L = 1"
    by (simp add: lettersOf_single)
  from ensurePass_spec[OF res refl single e] have
    en: "ensured (folders w) fs" and plan: "planned cfg fs (lettersOf cfg ?as) (typesOf cfg ?as) tm lm"
    unfolding planned_def by blast+
  from ensured_extends[OF en] res have res1: "resolvable fs (parentFolderId cfg)"
    by (auto simp: resolvable_append)
  have vals: "\<forall>k d. lm k = Some d \<longrightarrow> d \<in> folder_id ` set fs"
    using ensurePass_plan[of "\<lambda>f. True" newId, OF _ _ e] by (simp add: planIn_def)
  let ?bs = "scopeActors cfg ?w1"
  have origin: "\<exists>a \<in> set ?as. b = ?m a" if "b \<in> set ?bs" for b
  proof -
    from that obtain a where a: "a \<in> set (actors w)" "b = ?m a" "?P (?m a)"
      by (auto simp: scopeActors_def a1)
    have "?P a"
    proof (rule ccontr)
      assume "\<not> ?P a"
      then have "?m a = a" by (rule moved_out_of_scope)
      with a(3) \<open>\<not> ?P a\<close> show False by simp
    qed
    with a show ?thesis by (auto simp: scope)
  qed
  have settled: "destOf ?g lm b = None" if "b \<in> set ?bs" for b
  proof -
    from origin[OF that] obtain a where "a \<in> set ?as" "b = ?m a" by blast
    then show ?thesis using moved_settled[OF vals, of ?P a ?g] by (simp add: scope)
  qed
  show ?thesis
  proof (cases "?bs = [] \<or> lettersOf cfg ?bs = []")
    case True
    from runAlphabetizer_early[OF True, of newId'] show ?thesis by auto
  next
    case late: False
    obtain fs' tm' lm' where e':
      "ensurePass newId' cfg (lettersOf cfg ?bs) (typesOf cfg ?bs) (folders ?w1) = (fs', tm', lm')"
      by (cases "ensurePass newId' cfg (lettersOf cfg ?bs) (typesOf cfg ?bs) (folders ?w1)") auto
    have subL: "set (lettersOf cfg ?bs) \<subseteq> set (lettersOf cfg ?as)"
    proof (rule lettersOf_subset)
      fix b assume "b \<in> set ?bs"
      from origin[OF this] show "\<exists>a \<in> set ?as. actor_name a = actor_name b"
        by (auto simp: moved_fields)
    qed
    have subT: "set (typesOf cfg ?bs) \<subseteq> set (typesOf cfg ?as)"
    proof (rule typesOf_subset)
      fix b assume "b \<in> set ?bs"
      from origin[OF this] show "\<exists>a \<in> set ?as. actor_type a = actor_type b"
        by (auto simp: moved_fields)
    qed
    have single': "\<forall>L \<in> set (lettersOf cfg ?bs). length L = 1"
      by (simp add: lettersOf_single)
    from ensurePass_again[OF plan res1 subL subT single' e'[unfolded f1]] have
      same: "fs' = fs" and
      agree: "\<forall>t \<in> set (typesOf cfg ?bs). \<forall>L \<in> set (lettersOf cfg ?bs).
        lm' (bucketKey ?g (String_of t) L) = lm (bucketKey ?g (String_of t) L)"
      by blast+
    have "destOf ?g lm' b = None" if b: "b \<in> set ?bs" for b
    proof -
      have "destOf ?g lm' b = destOf ?g lm b"
      proof (rule destOf_agree)
        fix L assume L: "normalizeLetter (actor_name b) = Some L"
        have Lin: "L \<in> set (lettersOf cfg ?bs)"
          by (rule lettersOf_member[OF b L])
        from typesOf_member[OF b, of cfg L] obtain t where
          t: "t \<in> set (typesOf cfg ?bs)" and
          k: "bucketKey ?g (String_of t) L = bucketKey ?g (actor_type b) L"
          by blast
        from agree t Lin have "lm' (bucketKey ?g (String_of t) L) = lm (bucketKey ?g (String_of t) L)"
          by blast
        then show "lm' (bucketKey ?g (actor_type b) L) = lm (bucketKey ?g (actor_type b) L)"
          by (simp only: k)
      qed
      with settled[OF b] show ?thesis by simp
    qed
    then have none: "collectUpdates ?g lm' ?bs = []"
      by (intro collectUpdates_empty) simp
    from late have l1: "?bs \<noteq> []" and l2: "lettersOf cfg ?bs \<noteq> []" by auto
    have "fst (runAlphabetizer newId' cfg ?w1) = ?w1\<lparr> folders := fs', actors := actors ?w1 \<rparr>"
      using runAlphabetizer_late(1)[OF l1 l2 e'] by (simp add: none)
    then have "fst (runAlphabetizer newId' cfg ?w1) = ?w1"
      by (simp add: same f1[symmetric])
    moreover have "snd (runAlphabetizer newId' cfg ?w1) = InfoNothingToMove"
      by (rule runAlphabetizer_late(2)[OF l1 l2 e' none])
    ultimately show ?thesis by simp
  qed
qed

lemma parentChain_closed:
  assumes "\<forall>f \<in> set fs. case folder_folder f of None \<Rightarrow> True | Some p \<Rightarrow> p \<in> set fs"
  shows "f \<in> set fs \<Longrightarrow> set (parentChain f) \<subseteq> set fs"
proof (induction f rule: parentChain.induct)
  case (1 i n t)
  then show ?case by simp
next
  case (2 i n t p)
  from "2.prems" assms have "p \<in> set fs" by fastforce
  with 2 show ?case by simp
qed

lemma scope_resolvable:
  assumes "wellFormed w" and "scopeActors cfg w \<noteq> []"
  shows "resolvable (folders w) (parentFolderId cfg)"
proof (cases "parentFolderId cfg")
  case None
  then show ?thesis by (simp add: resolvable_def)
next
  case (Some p)
  from assms(2) obtain a where a: "a \<in> set (actors w)"
    and s: "actorInScope a (Some p) (includeSubfolders cfg)"
    by (auto simp: scopeActors_def Some filter_empty_conv)
  from s obtain f where f: "actor_folder a = Some f"
    and d: "folder_id f = p \<or> strictDescendantOf f p"
    by (auto simp: actorInScope_def actor_folder_id_def isDescendantFolder_chain
        split: if_splits option.splits)
  from assms(1) a f have fin: "f \<in> set (folders w)"
    by (fastforce simp: wellFormed_def)
  have closed: "\<forall>f \<in> set (folders w). case folder_folder f of None \<Rightarrow> True | Some p \<Rightarrow> p \<in> set (folders w)"
    using assms(1) by (simp add: wellFormed_def)
  from d have "p \<in> folder_id ` set (folders w)"
  proof
    assume "folder_id f = p"
    with fin show ?thesis by blast
  next
    assume "strictDescendantOf f p"
    then obtain q where "q \<in> set (parentChain f)" "folder_id q = p"
      by (auto simp: strictDescendantOf_def)
    with parentChain_closed[OF closed fin] show ?thesis by blast
  qed
  with Some show ?thesis by (simp add: resolvable_def)
qed

text \<open>
  C1. For every configuration and every well-formed world, a second run of
  \<open>runAlphabetizer\<close> on the world that a first run returns, with the same configuration,
  returns this world unchanged: the folder collection and the actors are the same, so no
  folder is created and no actor is reassigned, and the notification is not the one of a
  move.
\<close>

theorem runAlphabetizer_idempotent:
  assumes "wellFormed w"
  shows "fst (runAlphabetizer newId' cfg (fst (runAlphabetizer newId cfg w)))
           = fst (runAlphabetizer newId cfg w) \<and>
         folders (fst (runAlphabetizer newId' cfg (fst (runAlphabetizer newId cfg w))))
           = folders (fst (runAlphabetizer newId cfg w)) \<and>
         actors (fst (runAlphabetizer newId' cfg (fst (runAlphabetizer newId cfg w))))
           = actors (fst (runAlphabetizer newId cfg w)) \<and>
         snd (runAlphabetizer newId' cfg (fst (runAlphabetizer newId cfg w)))
           \<in> {WarnNoActorsInScope, WarnNoUsableLetter, InfoNothingToMove}"
proof (cases "scopeActors cfg w = []")
  case True
  then have "scopeActors cfg w = [] \<or> lettersOf cfg (scopeActors cfg w) = []" by simp
  from runAlphabetizer_early[OF this, of newId] runAlphabetizer_early[OF this, of newId']
  show ?thesis by auto
next
  case False
  with assms have "resolvable (folders w) (parentFolderId cfg)"
    by (rule scope_resolvable)
  moreover from assms have "distinct (map actor_id (actors w))"
    by (simp add: wellFormed_def)
  ultimately show ?thesis
    using runAlphabetizer_twice[of w cfg newId' newId] by simp
qed

text \<open>The small world: the first run moves three actors, the second returns the world as it is.\<close>

theorem runAlphabetizer_idempotent_witness:
  "wellFormed exWorld \<and>
   runAlphabetizer exNewId cfgRoot exWorld = (exWorld1, InfoMoved 3 False) \<and>
   fst (runAlphabetizer exNewId cfgRoot exWorld1) = exWorld1 \<and>
   snd (runAlphabetizer exNewId cfgRoot exWorld1)
     \<in> {WarnNoActorsInScope, WarnNoUsableLetter, InfoNothingToMove}"
  using runAlphabetizer_idempotent[OF ex_wellFormed, of exNewId cfgRoot exNewId] ex_wellFormed
  by (simp add: ex_run)

section \<open>No two folders with the same name and parent\<close>

lemma slotCount_append:
  "slotCount (fs @ ext) name parentId = slotCount fs name parentId + slotCount ext name parentId"
  by (simp add: slotCount_def)

lemma slotCount_zero:
  "findChildFolder fs name parentId = None \<longleftrightarrow> slotCount fs name parentId = 0"
  by (auto simp: findChildFolder_def slotCount_def find_None_iff filter_empty_conv)

lemma ensured_onlyOnes:
  "ensured fs fs' \<Longrightarrow> \<exists>created. fs' = fs @ created \<and> onlyOnes created fs'"
proof (induction rule: ensured.induct)
  case ensured_refl
  then show ?case by (simp add: onlyOnes_def)
next
  case (ensured_step fs1 parentId newId name)
  then obtain created where c: "fs1 = fs @ created" and o: "onlyOnes created fs1" by blast
  show ?case
  proof (cases "findChildFolder fs1 name parentId")
    case (Some e)
    with c o show ?thesis by (simp add: ensureFolder_found)
  next
    case None
    let ?c = "createFolder newId fs1 name parentId"
    have new: "fst (ensureFolder newId fs1 name parentId) = fs @ (created @ [?c])"
      using None c by (simp add: ensureFolder_created)
    have zero: "slotCount fs1 name parentId = 0"
      using None by (simp add: slotCount_zero)
    have cName: "folder_name ?c = name" and cPar: "folder_parent_id ?c = parentId"
      and cChild: "isChildFolder name parentId ?c"
      using ensured_step.hyps(2)
      by (simp_all add: createFolder_fields createFolder_parent createFolder_isChild)
    have "onlyOnes (created @ [?c]) (fs1 @ [?c])"
      unfolding onlyOnes_def
    proof
      fix f assume f: "f \<in> set (created @ [?c])"
      show "slotCount (fs1 @ [?c]) (folder_name f) (folder_parent_id f) = 1"
      proof (cases "f \<in> set created")
        case True
        with o have one: "slotCount fs1 (folder_name f) (folder_parent_id f) = 1"
          by (simp add: onlyOnes_def)
        have "\<not> isChildFolder (folder_name f) (folder_parent_id f) ?c"
        proof
          assume "isChildFolder (folder_name f) (folder_parent_id f) ?c"
          then have "folder_name f = name \<and> folder_parent_id f = parentId"
            using cName cPar by (simp add: isChildFolder_iff)
          with one zero show False by simp
        qed
        with one show ?thesis by (simp add: slotCount_append) (simp add: slotCount_def)
      next
        case False
        with f have "f = ?c" by simp
        with zero cName cPar cChild show ?thesis
          by (simp add: slotCount_append) (simp add: slotCount_def)
      qed
    qed
    with new c show ?thesis by (metis append_assoc)
  qed
qed

lemma runAlphabetizer_folders:
  "folders (fst (runAlphabetizer newId cfg w)) = folders w \<or>
   (scopeActors cfg w \<noteq> [] \<and>
    folders (fst (runAlphabetizer newId cfg w)) =
      fst (ensurePass newId cfg (lettersOf cfg (scopeActors cfg w))
             (typesOf cfg (scopeActors cfg w)) (folders w)))"
  by (auto simp: runAlphabetizer_def Let_def split: prod.splits)

lemma runAlphabetizer_ensured:
  assumes "resolvable (folders w) (parentFolderId cfg)"
  shows "ensured (folders w) (folders (fst (runAlphabetizer newId cfg w)))"
proof -
  let ?as = "scopeActors cfg w"
  obtain fs2 tm lm where e:
    "ensurePass newId cfg (lettersOf cfg ?as) (typesOf cfg ?as) (folders w) = (fs2, tm, lm)"
    by (cases "ensurePass newId cfg (lettersOf cfg ?as) (typesOf cfg ?as) (folders w)")
  have "\<forall>L \<in> set (lettersOf cfg ?as). length L = 1"
    by (simp add: lettersOf_single)
  from ensurePass_spec[OF assms refl this e] have "ensured (folders w) fs2" by blast
  with runAlphabetizer_folders[of newId cfg w] e show ?thesis
    by (auto simp: ensured_refl)
qed

text \<open>
  C4. \<open>ensureFolder\<close> returns the id of the folder that \<open>findChildFolder\<close> finds, a folder of
  type \<open>Actor\<close> of the collection with the name and the parent asked for, and leaves the
  collection as it is; it finds one whenever there is one; and only when there is none it
  appends one new folder. For a parent folder that is the root or in the collection, the
  folders that a run of \<open>runAlphabetizer\<close> creates are appended to the collection, and each
  of them is the only folder of type \<open>Actor\<close> with its name and its parent in the collection
  afterwards; the same holds for all folders created by a run and a second run on the
  collection that the first one left.
\<close>

theorem ensureFolder_never_duplicates:
  "(\<forall>e. findChildFolder fs name parentId = Some e \<longrightarrow>
        e \<in> set fs \<and> isChildFolder name parentId e \<and>
        ensureFolder newId fs name parentId = (fs, folder_id e)) \<and>
   ((\<exists>f \<in> set fs. isChildFolder name parentId f) \<longrightarrow> findChildFolder fs name parentId \<noteq> None) \<and>
   (\<not> (\<exists>f \<in> set fs. isChildFolder name parentId f) \<longrightarrow>
        ensureFolder newId fs name parentId =
          (fs @ [createFolder newId fs name parentId], newId fs)) \<and>
   (\<forall>f. isChildFolder name parentId f \<longleftrightarrow>
        folder_type f = Actor_type \<and> folder_name f = name \<and> folder_parent_id f = parentId) \<and>
   (resolvable (folders w) (parentFolderId cfg) \<and>
    resolvable (folders (fst (runAlphabetizer newId cfg w))) (parentFolderId cfg') \<longrightarrow>
      (\<exists>created.
         folders (fst (runAlphabetizer newId cfg w)) = folders w @ created \<and>
         onlyOnes created (folders (fst (runAlphabetizer newId cfg w)))) \<and>
      (\<exists>created.
         folders (fst (runAlphabetizer newId' cfg' (fst (runAlphabetizer newId cfg w))))
           = folders w @ created \<and>
         onlyOnes created
           (folders (fst (runAlphabetizer newId' cfg' (fst (runAlphabetizer newId cfg w)))))))"
proof (intro conjI allI impI)
  fix e assume e: "findChildFolder fs name parentId = Some e"
  then show "e \<in> set fs" "isChildFolder name parentId e"
    by (auto simp: findChildFolder_def find_Some_iff)
  from e show "ensureFolder newId fs name parentId = (fs, folder_id e)"
    by (rule ensureFolder_found)
next
  assume "\<exists>f \<in> set fs. isChildFolder name parentId f"
  then show "findChildFolder fs name parentId \<noteq> None"
    by (auto simp: findChildFolder_def find_None_iff)
next
  assume "\<not> (\<exists>f \<in> set fs. isChildFolder name parentId f)"
  then have "findChildFolder fs name parentId = None"
    by (auto simp: findChildFolder_def find_None_iff)
  then show "ensureFolder newId fs name parentId =
      (fs @ [createFolder newId fs name parentId], newId fs)"
    by (rule ensureFolder_created)
next
  fix f show "isChildFolder name parentId f \<longleftrightarrow>
        folder_type f = Actor_type \<and> folder_name f = name \<and> folder_parent_id f = parentId"
    by (rule isChildFolder_iff)
next
  let ?w1 = "fst (runAlphabetizer newId cfg w)"
  assume r: "resolvable (folders w) (parentFolderId cfg) \<and>
    resolvable (folders ?w1) (parentFolderId cfg')"
  have e1: "ensured (folders w) (folders ?w1)"
    using r by (intro runAlphabetizer_ensured) simp
  then show "\<exists>created. folders ?w1 = folders w @ created \<and> onlyOnes created (folders ?w1)"
    by (rule ensured_onlyOnes)
  from r have "resolvable (folders ?w1) (parentFolderId cfg')"
    by (rule conjunct2)
  then have e2: "ensured (folders ?w1) (folders (fst (runAlphabetizer newId' cfg' ?w1)))"
    by (rule runAlphabetizer_ensured)
  show "\<exists>created. folders (fst (runAlphabetizer newId' cfg' ?w1)) = folders w @ created \<and>
      onlyOnes created (folders (fst (runAlphabetizer newId' cfg' ?w1)))"
    by (rule ensured_onlyOnes[OF ensured_trans[OF e2 e1]])
qed

text \<open>
  In the small world, \<open>Heroes\<close> at the root is reused and \<open>A\<close> is created; a run creates
  \<open>A\<close>, \<open>B\<close> and \<open>Z\<close>, and a second run creates nothing more.
\<close>

theorem ensureFolder_never_duplicates_witness:
  "resolvable (folders exWorld) (parentFolderId cfgRoot) \<and>
   findChildFolder (folders exWorld) (js ''Heroes'') None = Some exHeroes \<and>
   ensureFolder exNewId (folders exWorld) (js ''Heroes'') None = (folders exWorld, js ''fold0003'') \<and>
   \<not> (\<exists>f \<in> set (folders exWorld). isChildFolder (js ''A'') None f) \<and>
   ensureFolder exNewId (folders exWorld) (js ''A'') None = (folders exWorld @ [exA], js ''new3'') \<and>
   folders (fst (runAlphabetizer exNewId cfgRoot exWorld)) = folders exWorld @ [exA, exB, exZ] \<and>
   onlyOnes [exA, exB, exZ] (folders exWorld @ [exA, exB, exZ]) \<and>
   folders (fst (runAlphabetizer exNewId cfgRoot (fst (runAlphabetizer exNewId cfgRoot exWorld))))
     = folders exWorld @ [exA, exB, exZ]"
proof -
  have r: "resolvable (folders exWorld) (parentFolderId cfgRoot) \<and>
      resolvable (folders (fst (runAlphabetizer exNewId cfgRoot exWorld))) (parentFolderId cfgRoot)"
    by (simp add: resolvable_def cfgRoot_def)
  note T1 = ensureFolder_never_duplicates[of "folders exWorld" "js ''Heroes''" None exNewId
      exWorld cfgRoot cfgRoot exNewId]
  note T2 = ensureFolder_never_duplicates[of "folders exWorld" "js ''A''" None exNewId
      exWorld cfgRoot cfgRoot exNewId]
  have reuse: "ensureFolder exNewId (folders exWorld) (js ''Heroes'') None =
      (folders exWorld, js ''fold0003'')"
    using T1 ex_onlyOnes_fact(1) by (simp add: ex_folder_ids)
  have create: "ensureFolder exNewId (folders exWorld) (js ''A'') None =
      (folders exWorld @ [exA], js ''new3'')"
    using T2 ex_onlyOnes_fact(2)
    by (simp add: exWorld_def ex_newId createFolder_def getFolder_def exA_def)
  have f1: "folders (fst (runAlphabetizer exNewId cfgRoot exWorld)) = folders exWorld @ [exA, exB, exZ]"
    by (simp add: ex_run) (simp add: exWorld1_def exWorld_def)
  from T1 r obtain created where
    c: "folders (fst (runAlphabetizer exNewId cfgRoot exWorld)) = folders exWorld @ created" and
    o: "onlyOnes created (folders (fst (runAlphabetizer exNewId cfgRoot exWorld)))"
    by blast
  from c f1 have "created = [exA, exB, exZ]" by simp
  with o f1 have only: "onlyOnes [exA, exB, exZ] (folders exWorld @ [exA, exB, exZ])" by simp
  from T1 r obtain created2 where
    c2: "folders (fst (runAlphabetizer exNewId cfgRoot (fst (runAlphabetizer exNewId cfgRoot exWorld))))
        = folders exWorld @ created2"
    by blast
  have d: "distinct (map actor_id (actors exWorld))"
    by (simp add: exWorld_def ex_actor_ids js_eq)
  have "fst (runAlphabetizer exNewId cfgRoot (fst (runAlphabetizer exNewId cfgRoot exWorld)))
      = fst (runAlphabetizer exNewId cfgRoot exWorld)"
    using runAlphabetizer_twice[OF conjunct1[OF r] d, of exNewId exNewId] by (rule conjunct1)
  then have f2: "folders (fst (runAlphabetizer exNewId cfgRoot (fst (runAlphabetizer exNewId cfgRoot exWorld))))
     = folders exWorld @ [exA, exB, exZ]"
    by (simp only: f1)
  from r ex_onlyOnes_fact reuse create f1 only f2 show ?thesis by blast
qed

section \<open>All letters\<close>





subsection \<open>The keys of the letter map and the folders created\<close>









subsection \<open>Counting the letter folders\<close>






subsection \<open>Invariants of the pass and the ids of the example generator\<close>










subsection \<open>The small world, grouped by type\<close>






subsection \<open>The letter folders of every partition\<close>



end
